theory Spec2Isabelle
  imports Main
begin

section \<open>Data model of the bone-cache subsystem (core/BoneKey.cpp)\<close>

text \<open>
  Scene nodes (\<^verbatim>\<open>ObjectNode\<close>) are heap objects compared by address. A node is modelled
  as a tree value carrying its identity \<open>nid\<close>; a pointer or weak handle to a node is
  its \<open>nid\<close>, and \<open>None\<close> is the null pointer (or a handle whose node is gone).
\<close>

datatype objnode = ObjectNode (nid: nat) (children: "objnode list")

text \<open>
  Modelled from the spec: \<^verbatim>\<open>ObjectNode::Iterator\<close> is not in the sources at hand; the
  spec says it walks the subtree rooted at its argument in document order (pre-order).
\<close>

fun iterate :: "objnode \<Rightarrow> objnode list" where
  "iterate (ObjectNode n cs) = ObjectNode n cs # concat (map iterate cs)"

text \<open>
  Modelled from the spec: \<^verbatim>\<open>util::TreeUtil::leftContainsRight\<close> is not in the sources
  at hand; the spec says it holds when the right node is a descendant of, or equal to,
  the left node. Nodes are compared by identity.
\<close>

definition leftContainsRight :: "objnode \<Rightarrow> objnode \<Rightarrow> bool" where
  "leftContainsRight l r = (nid r \<in> set (map nid (iterate l)))"

text \<open>
  Values whose arithmetic is floating point (\<^verbatim>\<open>QMatrix4x4\<close>, \<^verbatim>\<open>QVector3D\<close>) are kept
  opaque: a value is a code, and the operations on them are supplied by the project.
\<close>

datatype matrix4 = Matrix4 nat
datatype vector3 = Vector3 nat

text \<open>
  \<^verbatim>\<open>TimeInfo\<close> and \<^verbatim>\<open>LayerMesh\<close> are not in the sources at hand; of each, the model
  keeps the members the bone key reads or writes (the frame of a time, the frame sign
  and the vertex count of a mesh), and one more member of the time for the rest.
\<close>

record time_info =
  frame :: int
  fps :: int

record layer_mesh =
  frameSign :: int
  vertexCount :: int

text \<open>A bone: its own fields are an opaque payload, its children are owned top-down.\<close>

datatype bone_fields = BoneFields nat

datatype bone2 = Bone2 (bfields: bone_fields) (bchildren: "bone2 list")

text \<open>
  Modelled from the spec: \<^verbatim>\<open>BoneInfluenceMap\<close> is not in the sources at hand. The
  spec gives it a maximum bone count, storage for a vertex count, and raw weight data;
  \<open>allocate\<close> is a no-op for an unchanged vertex count unless a clear is forced.
\<close>

record influence_map =
  maxBoneCount :: int
  mapVertexCount :: int
  weights :: "nat list"

definition allocate :: "influence_map \<Rightarrow> int \<Rightarrow> bool \<Rightarrow> influence_map" where
  "allocate m n forceClear =
     (if mapVertexCount m = n \<and> \<not> forceClear then m
      else m\<lparr>mapVertexCount := n, weights := []\<rparr>)"

record cache =
  mInfluence :: influence_map
  mNode :: "nat option"
  mInnerMtx :: matrix4
  mFrameSign :: int

definition kMaxBoneCount :: int where
  "kMaxBoneCount = 32"

text \<open>\<^verbatim>\<open>BoneKey::Cache::Cache()\<close>\<close>

definition Cache :: cache where
  "Cache = \<lparr>mInfluence = \<lparr>maxBoneCount = kMaxBoneCount, mapVertexCount = 0, weights = []\<rparr>,
            mNode = None, mInnerMtx = Matrix4 0, mFrameSign = 0\<rparr>"

text \<open>\<^verbatim>\<open>BoneKey::Cache::setNode\<close>\<close>

definition setNode :: "cache \<Rightarrow> nat \<Rightarrow> cache" where
  "setNode c n = c\<lparr>mNode := Some n\<rparr>"

text \<open>
  Effects on the project that the claims speak of are recorded as events, in order:
  taking and releasing the object-tree write lock, a scheduled asynchronous weight
  computation (it does not touch the cache when it is requested), and the wake-up
  broadcast to the worker pool.
\<close>

datatype event =
    WriteLock
  | WriteUnlock
  | WriteAsync nat "bone2 list" matrix4 layer_mesh
  | WakeAll

text \<open>
  The project: the current time, the collaborators the bone key calls
  (\<^verbatim>\<open>TimeKeyBlender::getAreaMesh\<close>, \<^verbatim>\<open>TimeKeyBlender::getRelativeMatrix\<close>,
  \<^verbatim>\<open>ObjectNodeUtil::getCenterOffset3D\<close>, \<^verbatim>\<open>QMatrix4x4::translate\<close> and the negation of
  a vector, none of them in the sources at hand, taken as parameters), and the events.
\<close>

record project =
  currentTimeInfo :: time_info
  getAreaMesh :: "nat \<Rightarrow> time_info \<Rightarrow> layer_mesh option"
  getRelativeMatrix :: "nat \<Rightarrow> time_info \<Rightarrow> nat \<Rightarrow> matrix4"
  getCenterOffset3D :: "nat \<Rightarrow> vector3"
  translate :: "matrix4 \<Rightarrow> vector3 \<Rightarrow> matrix4"
  negate :: "vector3 \<Rightarrow> vector3"
  events :: "event list"

text \<open>
  The bone key. \<open>mCaches\<close> is the list of owned cache objects, each with its address:
  a \<^verbatim>\<open>Cache*\<close> is an address, and two caches are the same object when their addresses
  are equal. \<open>heapNext\<close> is the allocator: the address the next \<^verbatim>\<open>new Cache()\<close> returns.
  \<open>keyFrame\<close> is the frame of the key (\<^verbatim>\<open>this->frame()\<close>).
\<close>

record bonekey =
  keyFrame :: int
  mData :: "bone2 list"
  mCaches :: "(nat \<times> cache) list"
  mCacheOwner :: "nat option"
  heapNext :: nat

text \<open>
  What the C++ leaves undefined or asserts becomes an error value: a failed
  \<^verbatim>\<open>XC_ASSERT\<close>/\<^verbatim>\<open>XC_PTR_ASSERT\<close>, a null pointer dereferenced, a \<^verbatim>\<open>Cache*\<close> that is
  not a cache of this key.
\<close>

datatype error = AssertionFailed | NullDereference | InvalidPointer

section \<open>The core recompute: \<^verbatim>\<open>updateCaches(Project&, const QList<Cache*>&)\<close>\<close>

text \<open>
  A write through the pointer \<open>p\<close>: the object at that address (the one \<open>map_of\<close>
  reads) gets the new contents.
\<close>

fun setCache :: "nat \<Rightarrow> cache \<Rightarrow> (nat \<times> cache) list \<Rightarrow> (nat \<times> cache) list" where
  "setCache p c [] = []"
| "setCache p c ((q, d) # cs) = (if q = p then (q, c) # cs else (q, d) # setCache p c cs)"

text \<open>
  One pass of the loop body for the target \<open>p\<close>. The frame sign is read through the
  mesh pointer before the pointer is tested, as in the source. The caches the model
  knows are those of the key's collection, and every target the key itself passes
  (from \<open>resetCaches\<close> and from the targeted update) is one of them. A target outside
  the collection has no contents in the model: the pass stops with \<open>InvalidPointer\<close>
  there, where the source would refresh whatever live cache the pointer names. No
  property below is stated for such a target.
\<close>

definition updateTarget ::
  "nat \<Rightarrow> nat \<Rightarrow> project \<times> bonekey \<Rightarrow> error + (project \<times> bonekey)" where
  "updateTarget owner p st =
     (case st of (prj, key) \<Rightarrow>
      (case map_of (mCaches key) p of
         None \<Rightarrow> Inl InvalidPointer
       | Some c \<Rightarrow>
         (case mNode c of
            None \<Rightarrow> Inl AssertionFailed
          | Some node \<Rightarrow>
            (let time = (currentTimeInfo prj)\<lparr>frame := keyFrame key\<rparr> in
             (case getAreaMesh prj node time of
                None \<Rightarrow> Inl NullDereference
              | Some mesh \<Rightarrow>
                (let c1 = c\<lparr>mFrameSign := frameSign mesh\<rparr> in
                 if vertexCount mesh \<le> 0
                 then Inr (prj, key\<lparr>mCaches := setCache p c1 (mCaches key)\<rparr>)
                 else
                   (let innerMtx = translate prj (getRelativeMatrix prj node time owner)
                                     (negate prj (getCenterOffset3D prj node));
                        c2 = c1\<lparr>mInnerMtx := innerMtx\<rparr>;
                        c3 = c2\<lparr>mInfluence := allocate (mInfluence c2) (vertexCount mesh) False\<rparr>
                    in Inr (prj\<lparr>events := events prj @
                                    [WriteAsync p (mData key) (mInnerMtx c3) mesh]\<rparr>,
                            key\<lparr>mCaches := setCache p c3 (mCaches key)\<rparr>))))))))"

fun updateTargets ::
  "nat \<Rightarrow> nat list \<Rightarrow> project \<times> bonekey \<Rightarrow> error + (project \<times> bonekey)" where
  "updateTargets owner [] st = Inr st"
| "updateTargets owner (p # ps) st =
     (case updateTarget owner p st of
        Inl e \<Rightarrow> Inl e
      | Inr st' \<Rightarrow> updateTargets owner ps st')"

text \<open>
  The core recompute. The write lock is a scoped lock taken after the owner is
  asserted and released when the call ends, so the wake-up of the workers comes before
  the release.
\<close>

definition updateCaches ::
  "project \<Rightarrow> nat list \<Rightarrow> bonekey \<Rightarrow> error + (project \<times> bonekey)" where
  "updateCaches prj aTargets key =
     (if aTargets = [] then Inr (prj, key)
      else
        (case mCacheOwner key of
           None \<Rightarrow> Inl AssertionFailed
         | Some owner \<Rightarrow>
           (case updateTargets owner aTargets
                   (prj\<lparr>events := events prj @ [WriteLock]\<rparr>, key) of
              Inl e \<Rightarrow> Inl e
            | Inr (prj', key') \<Rightarrow>
                Inr (prj'\<lparr>events := events prj' @ [WakeAll, WriteUnlock]\<rparr>, key'))))"

section \<open>Lookup and teardown\<close>

text \<open>\<^verbatim>\<open>BoneKey::findCache\<close>: the first cache whose node handle is live and is the node.\<close>

fun findCacheIn :: "(nat \<times> cache) list \<Rightarrow> nat \<Rightarrow> (nat \<times> cache) option" where
  "findCacheIn [] n = None"
| "findCacheIn ((p, c) # cs) n =
     (if mNode c \<noteq> None \<and> mNode c = Some n then Some (p, c) else findCacheIn cs n)"

definition findCache :: "bonekey \<Rightarrow> nat \<Rightarrow> (nat \<times> cache) option" where
  "findCache key n = findCacheIn (mCaches key) n"

text \<open>\<^verbatim>\<open>BoneKey::popCache\<close>: as \<open>findCache\<close>, and the match is erased from the list.\<close>

fun popCacheIn ::
  "(nat \<times> cache) list \<Rightarrow> nat \<Rightarrow> (nat \<times> cache) option \<times> (nat \<times> cache) list" where
  "popCacheIn [] n = (None, [])"
| "popCacheIn ((p, c) # cs) n =
     (if mNode c \<noteq> None \<and> mNode c = Some n then (Some (p, c), cs)
      else (case popCacheIn cs n of (r, cs') \<Rightarrow> (r, (p, c) # cs')))"

definition popCache :: "bonekey \<Rightarrow> nat \<Rightarrow> (nat \<times> cache) option \<times> bonekey" where
  "popCache key n =
     (case popCacheIn (mCaches key) n of (r, cs) \<Rightarrow> (r, key\<lparr>mCaches := cs\<rparr>))"

text \<open>\<^verbatim>\<open>BoneKey::destroyCaches\<close>\<close>

definition destroyCaches :: "bonekey \<Rightarrow> bonekey" where
  "destroyCaches key = key\<lparr>mCaches := [], mCacheOwner := None\<rparr>"

section \<open>Full rebuild: \<^verbatim>\<open>resetCaches\<close>\<close>

text \<open>
  The loop of \<open>resetCaches\<close> over the nodes of the owner's subtree. The state is the
  bone key (its old cache list shrinks as caches are popped, its allocator advances
  when a cache is created) and the temporary list \<^verbatim>\<open>newCaches\<close>.
\<close>

fun findValidCaches ::
  "project \<Rightarrow> objnode list \<Rightarrow> bonekey \<times> (nat \<times> cache) list
     \<Rightarrow> bonekey \<times> (nat \<times> cache) list" where
  "findValidCaches prj [] st = st"
| "findValidCaches prj (node # nodes) (key, newCaches) =
     (let time = (currentTimeInfo prj)\<lparr>frame := keyFrame key\<rparr> in
      (case getAreaMesh prj (nid node) time of
         None \<Rightarrow> findValidCaches prj nodes (key, newCaches)
       | Some mesh \<Rightarrow>
           if vertexCount mesh \<le> 0 then findValidCaches prj nodes (key, newCaches)
           else
             (case popCache key (nid node) of
                (Some cache, key') \<Rightarrow>
                  findValidCaches prj nodes (key', newCaches @ [cache])
              | (None, key') \<Rightarrow>
                  findValidCaches prj nodes
                    (key'\<lparr>heapNext := Suc (heapNext key')\<rparr>,
                     newCaches @ [(heapNext key', setNode Cache (nid node))]))))"

definition resetCaches ::
  "project \<Rightarrow> objnode \<Rightarrow> bonekey \<Rightarrow> error + (project \<times> bonekey)" where
  "resetCaches prj aOwner key =
     (case findValidCaches prj (iterate aOwner) (key, []) of
        (key1, newCaches) \<Rightarrow>
          (let key2 = destroyCaches key1;
               key3 = key2\<lparr>mCaches := mCaches key2 @ newCaches\<rparr>;
               key4 = key3\<lparr>mCacheOwner := Some (nid aOwner)\<rparr>
           in updateCaches prj (map fst (mCaches key4)) key4))"

section \<open>Targeted update: \<^verbatim>\<open>updateCaches(Project&, ObjectNode&, const QVector<ObjectNode*>&)\<close>\<close>

text \<open>The inner loop: the caches found for the nodes of one root's subtree.\<close>

fun collectNodes :: "bonekey \<Rightarrow> objnode list \<Rightarrow> nat list \<Rightarrow> nat list" where
  "collectNodes key [] caches = caches"
| "collectNodes key (node # nodes) caches =
     (case findCache key (nid node) of
        None \<Rightarrow> collectNodes key nodes caches
      | Some (p, c) \<Rightarrow>
          if p \<notin> set caches then collectNodes key nodes (caches @ [p])
          else collectNodes key nodes caches)"

text \<open>The outer loop over the roots; a root outside the owner is passed over.\<close>

fun collectRoots :: "bonekey \<Rightarrow> objnode \<Rightarrow> objnode list \<Rightarrow> nat list \<Rightarrow> nat list" where
  "collectRoots key aOwner [] caches = caches"
| "collectRoots key aOwner (root # roots) caches =
     (if \<not> leftContainsRight aOwner root then collectRoots key aOwner roots caches
      else collectRoots key aOwner roots (collectNodes key (iterate root) caches))"

definition updateCachesRoots ::
  "project \<Rightarrow> objnode \<Rightarrow> objnode list \<Rightarrow> bonekey \<Rightarrow> error + (project \<times> bonekey)" where
  "updateCachesRoots prj aOwner aUniqueRoots key =
     (let caches = collectRoots key aOwner aUniqueRoots [] in
      if \<not> (mCacheOwner key = None \<or> mCacheOwner key = Some (nid aOwner))
      then Inl AssertionFailed
      else updateCaches prj caches (key\<lparr>mCacheOwner := Some (nid aOwner)\<rparr>))"

text \<open>
  The nodes the caches of a collection are bound to, and the invariant of the
  collection: no node is bound twice.
\<close>

definition boundNodes :: "(nat \<times> cache) list \<Rightarrow> nat list" where
  "boundNodes cs = concat (map (\<lambda>pc. case mNode (snd pc) of None \<Rightarrow> [] | Some n \<Rightarrow> [n]) cs)"

definition oneCachePerNode :: "(nat \<times> cache) list \<Rightarrow> bool" where
  "oneCachePerNode cs = distinct (boundNodes cs)"

section \<open>Auxiliary notions for the cache operations\<close>

text \<open>
  The test of \<open>resetCaches\<close> on a node, at the project's current time with the frame
  set to the key's frame \<open>fr\<close>: the area mesh is there and has at least one vertex.
\<close>

definition hasAreaMesh :: "project \<Rightarrow> int \<Rightarrow> nat \<Rightarrow> bool" where
  "hasAreaMesh prj fr n =
     (case getAreaMesh prj n ((currentTimeInfo prj)\<lparr>frame := fr\<rparr>) of
        None \<Rightarrow> False | Some mesh \<Rightarrow> 0 < vertexCount mesh)"

text \<open>The node handles of a cache list, in order.\<close>

definition cacheNodes :: "(nat \<times> cache) list \<Rightarrow> nat option list" where
  "cacheNodes cs = map (\<lambda>pc. mNode (snd pc)) cs"

text \<open>A node handle is live and its node has an area mesh (of any vertex count).\<close>

definition meshPresent :: "project \<Rightarrow> int \<Rightarrow> nat option \<Rightarrow> bool" where
  "meshPresent prj fr x =
     (case x of None \<Rightarrow> False
      | Some n \<Rightarrow> getAreaMesh prj n ((currentTimeInfo prj)\<lparr>frame := fr\<rparr>) \<noteq> None)"

text \<open>The caches for which an asynchronous weight computation was scheduled.\<close>

fun asyncTargets :: "event list \<Rightarrow> nat list" where
  "asyncTargets [] = []"
| "asyncTargets (WriteAsync p bs m mesh # es) = p # asyncTargets es"
| "asyncTargets (e # es) = asyncTargets es"

text \<open>The address \<open>p\<close> is that of an existing cache bound to one of the nodes \<open>ns\<close>.\<close>

definition cacheOfNodes :: "bonekey \<Rightarrow> objnode list \<Rightarrow> nat \<Rightarrow> bool" where
  "cacheOfNodes key ns p =
     (\<exists>c. (p, c) \<in> set (mCaches key) \<and> mNode c \<in> Some ` nid ` set ns)"

text \<open>The nodes under the roots that lie inside the owner.\<close>

definition qualifyingNodes :: "objnode \<Rightarrow> objnode list \<Rightarrow> objnode list" where
  "qualifyingNodes aOwner roots = concat (map iterate (filter (leftContainsRight aOwner) roots))"

section \<open>A small scene for concrete evaluation\<close>

text \<open>
  Node 0 owns nodes 1 and 2, node 2 owns node 3. Node 1 has a mesh of four vertices,
  node 2 an empty mesh, nodes 0 and 3 no mesh. The key starts with one cache, bound to
  node 2.
\<close>

definition exProject :: project where
  "exProject = \<lparr>currentTimeInfo = \<lparr>frame = 0, fps = 24\<rparr>,
     getAreaMesh = (\<lambda>n t. if n = 1 then Some \<lparr>frameSign = frame t, vertexCount = 4\<rparr>
                           else if n = 2 then Some \<lparr>frameSign = frame t, vertexCount = 0\<rparr>
                           else None),
     getRelativeMatrix = (\<lambda>n t owner. Matrix4 (n + owner)),
     getCenterOffset3D = (\<lambda>n. Vector3 n),
     translate = (\<lambda>m v. case (m, v) of (Matrix4 a, Vector3 b) \<Rightarrow> Matrix4 (a + b)),
     negate = (\<lambda>v. v), events = []\<rparr>"

definition exTree :: objnode where
  "exTree = ObjectNode 0 [ObjectNode 1 [], ObjectNode 2 [ObjectNode 3 []]]"

definition exKey :: bonekey where
  "exKey = \<lparr>keyFrame = 7, mData = [Bone2 (BoneFields 1) [Bone2 (BoneFields 2) []]],
            mCaches = [(0, setNode Cache 2)], mCacheOwner = None, heapNext = 1\<rparr>"

definition exKey1 :: bonekey where
  "exKey1 = exKey\<lparr>mCaches :=
       [(1, \<lparr>mInfluence = \<lparr>maxBoneCount = 32, mapVertexCount = 4, weights = []\<rparr>,
             mNode = Some 1, mInnerMtx = Matrix4 2, mFrameSign = 7\<rparr>)],
     mCacheOwner := Some 0, heapNext := 2\<rparr>"

definition exProject1 :: project where
  "exProject1 = exProject\<lparr>events :=
       [WriteLock,
        WriteAsync 1 (mData exKey) (Matrix4 2) \<lparr>frameSign = 7, vertexCount = 4\<rparr>,
        WakeAll, WriteUnlock]\<rparr>"

definition exKey2 :: bonekey where
  "exKey2 = exKey\<lparr>mCaches := [(0, setNode Cache 1), (1, setNode Cache 3)],
                  mCacheOwner := Some 0, heapNext := 2\<rparr>"

section \<open>The serialization protocol\<close>

text \<open>
  Modelled from the spec: \<^verbatim>\<open>Serializer\<close> and \<^verbatim>\<open>Deserializer\<close> are not in the sources at
  hand. The spec describes a sequential, checked stream of int32 counts, node-identity
  references (IDs), 4x4 matrices, frame markers, bone fields and influence-map records.
  The stream is a list of such items. An ID is the identity of the node it stands for,
  \<open>None\<close> for the null reference. A count is an int32 in the format; the lists it
  counts hold fewer than \<open>2 ^ 31\<close> items, so the count written is the length.
\<close>

datatype token =
    TInt int
  | TID "nat option"
  | TMatrix matrix4
  | TFrame int
  | TBone bone_fields
  | TInfluence influence_map

text \<open>
  Writing appends to the stream and does not fail; \<^verbatim>\<open>Serializer::checkStream\<close> reports
  that no write has failed.
\<close>

definition checkStreamOut :: "token list \<Rightarrow> bool" where
  "checkStreamOut aOut = True"

text \<open>
  Modelled from the spec: \<^verbatim>\<open>Bone2::serialize\<close> and \<^verbatim>\<open>BoneInfluenceMap::serialize\<close> are
  not in the sources at hand; each writes the object's own data as one record.
\<close>

definition Bone2_serialize :: "token list \<Rightarrow> bone_fields \<Rightarrow> bool \<times> token list" where
  "Bone2_serialize aOut f = (True, aOut @ [TBone f])"

definition BoneInfluenceMap_serialize :: "token list \<Rightarrow> influence_map \<Rightarrow> bool \<times> token list" where
  "BoneInfluenceMap_serialize aOut m = (True, aOut @ [TInfluence m])"

text \<open>
  \<^verbatim>\<open>BoneKey::serializeBone\<close>, and the loop over a list of bones that both it (over the
  children) and \<open>serialize\<close> (over the top bones) run.
\<close>

fun serializeBone :: "token list \<Rightarrow> bone2 \<Rightarrow> bool \<times> token list"
  and serializeBones :: "token list \<Rightarrow> bone2 list \<Rightarrow> bool \<times> token list" where
  "serializeBone aOut (Bone2 f cs) =
     (let out1 = aOut @ [TInt (int (length cs))] in
      (case Bone2_serialize out1 f of
         (False, out2) \<Rightarrow> (False, out2)
       | (True, out2) \<Rightarrow>
           (case serializeBones out2 cs of
              (False, out3) \<Rightarrow> (False, out3)
            | (True, out3) \<Rightarrow> (checkStreamOut out3, out3))))"
| "serializeBones aOut [] = (True, aOut)"
| "serializeBones aOut (b # bs) =
     (case serializeBone aOut b of
        (False, out1) \<Rightarrow> (False, out1)
      | (True, out1) \<Rightarrow> serializeBones out1 bs)"

fun serializeCaches :: "token list \<Rightarrow> cache list \<Rightarrow> bool \<times> token list" where
  "serializeCaches aOut [] = (True, aOut)"
| "serializeCaches aOut (c # cs) =
     (let out1 = aOut @ [TID (mNode c)];
          out2 = out1 @ [TMatrix (mInnerMtx c)];
          out3 = out2 @ [TFrame (mFrameSign c)]
      in (case BoneInfluenceMap_serialize out3 (mInfluence c) of
            (False, out4) \<Rightarrow> (False, out4)
          | (True, out4) \<Rightarrow> serializeCaches out4 cs))"

text \<open>\<^verbatim>\<open>BoneKey::serialize\<close>\<close>

definition serialize :: "bonekey \<Rightarrow> token list \<Rightarrow> bool \<times> token list" where
  "serialize key aOut =
     (let out1 = aOut @ [TInt (int (length (mData key)))] in
      (case serializeBones out1 (mData key) of
         (False, out2) \<Rightarrow> (False, out2)
       | (True, out2) \<Rightarrow>
           (let out3 = out2 @ [TID (mCacheOwner key)];
                out4 = out3 @ [TInt (int (length (mCaches key)))]
            in (case serializeCaches out4 (map snd (mCaches key)) of
                  (False, out5) \<Rightarrow> (False, out5)
                | (True, out5) \<Rightarrow> (checkStreamOut out5, out5)))))"

text \<open>
  The two closures \<open>deserialize\<close> hands to \<^verbatim>\<open>orderIDData\<close>: one sets the owner of the
  key, the other the node of the cache it captured (by address).
\<close>

datatype solver = OwnerSolver | CacheSolver nat

text \<open>
  Modelled from the spec: the state of a \<^verbatim>\<open>Deserializer\<close>. The input left to read; the
  flag of a checked stream, raised by a read that finds the stream exhausted or the
  wrong item and never lowered (a read on a failed stream reads nothing); the stack of
  log scopes and the errors reported, each with the scopes it was reported under; the
  deferred resolution requests, each an ID with the closure to call.
\<close>

record deserializer =
  input :: "token list"
  failed :: bool
  logScopes :: "string list"
  errorLog :: "(string list \<times> string) list"
  idSolvers :: "(nat option \<times> solver) list"

definition pushLogScope :: "deserializer \<Rightarrow> string \<Rightarrow> deserializer" where
  "pushLogScope aIn s = aIn\<lparr>logScopes := s # logScopes aIn\<rparr>"

definition popLogScope :: "deserializer \<Rightarrow> deserializer" where
  "popLogScope aIn = aIn\<lparr>logScopes := tl (logScopes aIn)\<rparr>"

text \<open>\<^verbatim>\<open>errored(msg)\<close> reports the message under the current scopes and returns false.\<close>

definition errored :: "deserializer \<Rightarrow> string \<Rightarrow> bool \<times> deserializer" where
  "errored aIn msg = (False, aIn\<lparr>errorLog := errorLog aIn @ [(logScopes aIn, msg)]\<rparr>)"

definition checkStream :: "deserializer \<Rightarrow> bool" where
  "checkStream aIn = (\<not> failed aIn)"

text \<open>
  The reads. Each takes the value the variable holds before the read, which it keeps
  when the read fails.
\<close>

definition readInt :: "deserializer \<Rightarrow> int \<Rightarrow> int \<times> deserializer" where
  "readInt aIn v =
     (if failed aIn then (v, aIn)
      else (case input aIn of
              TInt n # rest \<Rightarrow> (n, aIn\<lparr>input := rest\<rparr>)
            | _ \<Rightarrow> (v, aIn\<lparr>failed := True\<rparr>)))"

definition readMatrix :: "deserializer \<Rightarrow> matrix4 \<Rightarrow> matrix4 \<times> deserializer" where
  "readMatrix aIn v =
     (if failed aIn then (v, aIn)
      else (case input aIn of
              TMatrix m # rest \<Rightarrow> (m, aIn\<lparr>input := rest\<rparr>)
            | _ \<Rightarrow> (v, aIn\<lparr>failed := True\<rparr>)))"

definition readFrame :: "deserializer \<Rightarrow> int \<Rightarrow> int \<times> deserializer" where
  "readFrame aIn v =
     (if failed aIn then (v, aIn)
      else (case input aIn of
              TFrame n # rest \<Rightarrow> (n, aIn\<lparr>input := rest\<rparr>)
            | _ \<Rightarrow> (v, aIn\<lparr>failed := True\<rparr>)))"

text \<open>\<^verbatim>\<open>orderIDData(solver)\<close> reads an ID and files the request; false when the read fails.\<close>

definition orderIDData :: "deserializer \<Rightarrow> solver \<Rightarrow> bool \<times> deserializer" where
  "orderIDData aIn s =
     (if failed aIn then (False, aIn)
      else (case input aIn of
              TID i # rest \<Rightarrow> (True, aIn\<lparr>input := rest, idSolvers := idSolvers aIn @ [(i, s)]\<rparr>)
            | _ \<Rightarrow> (False, aIn\<lparr>failed := True\<rparr>)))"

text \<open>
  Modelled from the spec: \<^verbatim>\<open>Bone2::deserialize\<close> and \<^verbatim>\<open>BoneInfluenceMap::deserialize\<close>,
  the mirrors of the writers above; false when the record is not there.
\<close>

definition Bone2_deserialize :: "deserializer \<Rightarrow> bone_fields \<Rightarrow> bool \<times> bone_fields \<times> deserializer" where
  "Bone2_deserialize aIn v =
     (if failed aIn then (False, v, aIn)
      else (case input aIn of
              TBone f # rest \<Rightarrow> (True, f, aIn\<lparr>input := rest\<rparr>)
            | _ \<Rightarrow> (False, v, aIn\<lparr>failed := True\<rparr>)))"

definition BoneInfluenceMap_deserialize ::
  "deserializer \<Rightarrow> influence_map \<Rightarrow> bool \<times> influence_map \<times> deserializer" where
  "BoneInfluenceMap_deserialize aIn v =
     (if failed aIn then (False, v, aIn)
      else (case input aIn of
              TInfluence m # rest \<Rightarrow> (True, m, aIn\<lparr>input := rest\<rparr>)
            | _ \<Rightarrow> (False, v, aIn\<lparr>failed := True\<rparr>)))"

text \<open>\<^verbatim>\<open>new Bone2()\<close>: a bone with default fields and no children.\<close>

definition newBone2 :: bone2 where
  "newBone2 = Bone2 (BoneFields 0) []"

text \<open>
  \<^verbatim>\<open>BoneKey::deserializeBone\<close>. The bone is filled in place, so the caller sees what was
  built of it also when the call returns false: the result carries the bone either way.
  The first argument bounds the depth of the recursion; \<open>None\<close> means it was reached.
  \<open>deserializeChildren\<close> is the loop over the children: each child is put under its
  parent before it is decoded.
\<close>

fun deserializeBone :: "nat \<Rightarrow> deserializer \<Rightarrow> bone2 \<Rightarrow> (bool \<times> bone2 \<times> deserializer) option"
  and deserializeChildren ::
    "nat \<Rightarrow> nat \<Rightarrow> deserializer \<Rightarrow> bone2 \<Rightarrow> (bool \<times> bone2 \<times> deserializer) option" where
  "deserializeBone 0 aIn aBone = None"
| "deserializeBone (Suc k) aIn aBone =
     (case readInt aIn 0 of
        (childCount, in1) \<Rightarrow>
          if childCount < 0
          then (case errored in1 ''invalid child count'' of (r, in2) \<Rightarrow> Some (r, aBone, in2))
          else
            (case Bone2_deserialize in1 (bfields aBone) of
               (False, f, in2) \<Rightarrow> Some (False, Bone2 f (bchildren aBone), in2)
             | (True, f, in2) \<Rightarrow>
                 (case deserializeChildren k (nat childCount) in2 (Bone2 f (bchildren aBone)) of
                    None \<Rightarrow> None
                  | Some (False, b, in3) \<Rightarrow> Some (False, b, in3)
                  | Some (True, b, in3) \<Rightarrow> Some (checkStream in3, b, in3))))"
| "deserializeChildren k 0 aIn aBone = Some (True, aBone, aIn)"
| "deserializeChildren k (Suc n) aIn aBone =
     (case deserializeBone k aIn newBone2 of
        None \<Rightarrow> None
      | Some (ok, child, in1) \<Rightarrow>
          (let b = Bone2 (bfields aBone) (bchildren aBone @ [child]) in
           if \<not> ok then Some (False, b, in1)
           else deserializeChildren k n in1 b))"

text \<open>The loop of \<open>deserialize\<close> over the top bones.\<close>

fun deserializeTopBones ::
  "nat \<Rightarrow> nat \<Rightarrow> deserializer \<Rightarrow> bonekey \<Rightarrow> (bool \<times> deserializer \<times> bonekey) option" where
  "deserializeTopBones k 0 aIn key = Some (True, aIn, key)"
| "deserializeTopBones k (Suc n) aIn key =
     (case deserializeBone k aIn newBone2 of
        None \<Rightarrow> None
      | Some (ok, topBone, in1) \<Rightarrow>
          (let key1 = key\<lparr>mData := mData key @ [topBone]\<rparr> in
           if \<not> ok then Some (False, in1, key1)
           else deserializeTopBones k n in1 key1))"

text \<open>
  The loop of \<open>deserialize\<close> over the caches. The new cache is in the collection from
  the start of its pass; the model puts it there, with the contents it has by then, at
  every exit of the pass.
\<close>

fun deserializeCaches :: "nat \<Rightarrow> deserializer \<Rightarrow> bonekey \<Rightarrow> bool \<times> deserializer \<times> bonekey" where
  "deserializeCaches 0 aIn key = (True, aIn, key)"
| "deserializeCaches (Suc n) aIn key =
     (let p = heapNext key;
          key0 = key\<lparr>heapNext := Suc p\<rparr>;
          cache = Cache
      in (case orderIDData aIn (CacheSolver p) of
            (False, in1) \<Rightarrow>
              (case errored in1 ''invalid cache reference id'' of
                 (r, in2) \<Rightarrow> (r, in2, key0\<lparr>mCaches := mCaches key0 @ [(p, cache)]\<rparr>))
          | (True, in1) \<Rightarrow>
              (case readMatrix in1 (Matrix4 0) of
                 (innerMtx, in2) \<Rightarrow>
                   (case readFrame in2 0 of
                      (sign, in3) \<Rightarrow>
                        (let cache1 = cache\<lparr>mInnerMtx := innerMtx, mFrameSign := sign\<rparr> in
                         (case BoneInfluenceMap_deserialize in3 (mInfluence cache1) of
                            (False, m, in4) \<Rightarrow>
                              (False, in4,
                               key0\<lparr>mCaches := mCaches key0 @ [(p, cache1\<lparr>mInfluence := m\<rparr>)]\<rparr>)
                          | (True, m, in4) \<Rightarrow>
                              deserializeCaches n in4
                                (key0\<lparr>mCaches := mCaches key0 @ [(p, cache1\<lparr>mInfluence := m\<rparr>)]\<rparr>)))))))"

text \<open>\<^verbatim>\<open>BoneKey::Data::deleteAll\<close>\<close>

definition deleteAll :: "bonekey \<Rightarrow> bonekey" where
  "deleteAll key = key\<lparr>mData := []\<rparr>"

text \<open>\<^verbatim>\<open>BoneKey::deserialize\<close>, with the bound on the depth of bones given.\<close>

definition deserializeWithin ::
  "nat \<Rightarrow> deserializer \<Rightarrow> bonekey \<Rightarrow> (bool \<times> deserializer \<times> bonekey) option" where
  "deserializeWithin k aIn key =
     (let key1 = destroyCaches (deleteAll key);
          in0 = pushLogScope aIn ''BoneKey''
      in (case readInt in0 0 of
            (topBoneCount, in1) \<Rightarrow>
              if topBoneCount < 0
              then (case errored in1 ''invalid top bone count'' of
                      (r, in2) \<Rightarrow> Some (r, in2, key1))
              else
                (case deserializeTopBones k (nat topBoneCount) in1 key1 of
                   None \<Rightarrow> None
                 | Some (False, in2, key2) \<Rightarrow> Some (False, in2, key2)
                 | Some (True, in2, key2) \<Rightarrow>
                     (case orderIDData in2 OwnerSolver of
                        (False, in3) \<Rightarrow>
                          (case errored in3 ''invalid cache owner reference id'' of
                             (r, in4) \<Rightarrow> Some (r, in4, key2))
                      | (True, in3) \<Rightarrow>
                          (case readInt in3 0 of
                             (cacheCount, in4) \<Rightarrow>
                               if cacheCount < 0
                               then (case errored in4 ''invalid cache count'' of
                                       (r, in5) \<Rightarrow> Some (r, in5, key2))
                               else
                                 (case deserializeCaches (nat cacheCount) in4 key2 of
                                    (False, in5, key3) \<Rightarrow> Some (False, in5, key3)
                                  | (True, in5, key3) \<Rightarrow>
                                      (let in6 = popLogScope in5
                                       in Some (checkStream in6, in6, key3))))))))"

text \<open>
  \<^verbatim>\<open>BoneKey::deserialize\<close>: a bone takes at least one item of the stream, so the depth
  of bones cannot pass the length of the input.
\<close>

definition deserialize :: "deserializer \<Rightarrow> bonekey \<Rightarrow> (bool \<times> deserializer \<times> bonekey) option" where
  "deserialize aIn key = deserializeWithin (Suc (length (input aIn))) aIn key"

text \<open>
  The closures, as the source writes them: a null pointer leaves the target as it is.
  The cache closure writes through the address it captured. Between the two phases of
  one decode the cache is in the collection, at the address the closure holds. Were it
  no longer there, the write of the source would go through the captured pointer all
  the same and would not reach the collection: the model leaves the key as it is then,
  and no property below is stated for that case.
\<close>

fun applySolver :: "solver \<Rightarrow> nat option \<Rightarrow> bonekey \<Rightarrow> bonekey" where
  "applySolver OwnerSolver None key = key"
| "applySolver OwnerSolver (Some node) key = key\<lparr>mCacheOwner := Some node\<rparr>"
| "applySolver (CacheSolver p) None key = key"
| "applySolver (CacheSolver p) (Some node) key =
     (case map_of (mCaches key) p of
        None \<Rightarrow> key
      | Some c \<Rightarrow> key\<lparr>mCaches := setCache p (setNode c node) (mCaches key)\<rparr>)"

text \<open>
  Modelled from the spec: the post-load pass is not in the sources at hand. The spec
  says it resolves each deferred ID to a live node and calls the closure with it, and
  that a request whose ID cannot be resolved fails the decode. \<open>resolve\<close> is the
  registry of the loaded project: the node an ID stands for. The null ID is no
  request to resolve: its closure gets the null pointer.
\<close>

fun solveIDs :: "(nat \<Rightarrow> nat option) \<Rightarrow> (nat option \<times> solver) list \<Rightarrow> bonekey \<Rightarrow> bool \<times> bonekey" where
  "solveIDs resolve [] key = (True, key)"
| "solveIDs resolve ((None, s) # rest) key = solveIDs resolve rest (applySolver s None key)"
| "solveIDs resolve ((Some i, s) # rest) key =
     (case resolve i of
        None \<Rightarrow> (False, key)
      | Some node \<Rightarrow> solveIDs resolve rest (applySolver s (Some node) key))"

text \<open>A fresh reader of a stream.\<close>

definition reader :: "token list \<Rightarrow> deserializer" where
  "reader ts = \<lparr>input = ts, failed = False, logScopes = [], errorLog = [], idSolvers = []\<rparr>"

text \<open>Decoding a stream into a key, both phases: what loading leaves in the key.\<close>

definition load :: "(nat \<Rightarrow> nat option) \<Rightarrow> token list \<Rightarrow> bonekey \<Rightarrow> (bool \<times> bonekey) option" where
  "load resolve ts key =
     (case deserialize (reader ts) key of
        None \<Rightarrow> None
      | Some (False, aIn, key1) \<Rightarrow> Some (False, key1)
      | Some (True, aIn, key1) \<Rightarrow> Some (solveIDs resolve (idSolvers aIn) key1))"

section \<open>Auxiliary notions for the serialization protocol\<close>

text \<open>
  The stream of a bone as the format lays it out: the child count, the bone's own
  fields, then the children in order.
\<close>

fun encBone :: "bone2 \<Rightarrow> token list" where
  "encBone (Bone2 f cs) = TInt (int (length cs)) # TBone f # concat (map encBone cs)"

text \<open>The stream of a cache record: node reference, inner matrix, frame sign, influence map.\<close>

definition encCache :: "cache \<Rightarrow> token list" where
  "encCache c = [TID (mNode c), TMatrix (mInnerMtx c), TFrame (mFrameSign c), TInfluence (mInfluence c)]"

text \<open>The depth of a bone tree.\<close>

fun depth :: "bone2 \<Rightarrow> nat" where
  "depth (Bone2 f cs) = Suc (fold max (map depth cs) 0)"

text \<open>
  Decoding the stream of the bone \<open>b\<close> into a bone with some children already under
  it: the fields of \<open>b\<close> are read and the children of \<open>b\<close> are added.
\<close>

definition decodesBone :: "bone2 \<Rightarrow> bool" where
  "decodesBone b =
     (\<forall>k aIn aBone rest. depth b \<le> k \<longrightarrow> \<not> failed aIn \<longrightarrow> input aIn = encBone b @ rest \<longrightarrow>
        deserializeBone k aIn aBone
          = Some (True, Bone2 (bfields b) (bchildren aBone @ bchildren b), aIn\<lparr>input := rest\<rparr>))"

text \<open>A cache as phase one of the decode leaves it: its node is not yet set.\<close>

definition unbound :: "cache \<Rightarrow> cache" where
  "unbound c = c\<lparr>mNode := None\<rparr>"

text \<open>The stream of a bone key, as the format lays it out.\<close>

definition encKey :: "bonekey \<Rightarrow> token list" where
  "encKey key = TInt (int (length (mData key))) # concat (map encBone (mData key))
              @ TID (mCacheOwner key) # TInt (int (length (mCaches key)))
              # concat (map encCache (map snd (mCaches key)))"

text \<open>
  The streams on which decoding a bone reads a negative child count, for the bone
  itself or for a bone below it: either the stream starts with a negative count, or it
  starts with a count \<open>c\<close>, the bone's fields and fewer than \<open>c\<close> whole children, and
  what follows is such a stream for the next child.
\<close>

inductive readsNegativeChildCount :: "token list \<Rightarrow> bool" where
  here: "n < 0 \<Longrightarrow> readsNegativeChildCount (TInt n # rest)"
| below: "length cs < c \<Longrightarrow> readsNegativeChildCount ts \<Longrightarrow>
          readsNegativeChildCount (TInt (int c) # TBone f # concat (map encBone cs) @ ts)"

text \<open>
  The nodes that the references filed for caches resolve to, in the order they were
  filed.
\<close>

definition cacheRefs :: "(nat \<Rightarrow> nat option) \<Rightarrow> (nat option \<times> solver) list \<Rightarrow> nat list" where
  "cacheRefs resolve sol =
     concat (map (\<lambda>(i, s). case s of
                     OwnerSolver \<Rightarrow> []
                   | CacheSolver p \<Rightarrow>
                       (case i of None \<Rightarrow> []
                        | Some v \<Rightarrow> (case resolve v of None \<Rightarrow> [] | Some n \<Rightarrow> [n]))) sol)"

text \<open>The closure filed for a cache: it captures the address of the cache.\<close>

definition solverOf :: "nat \<times> cache \<Rightarrow> solver" where
  "solverOf pc = CacheSolver (fst pc)"

text \<open>
  The caches a decode has built from the address \<open>h\<close> on and the requests it has filed
  for them: the addresses are consecutive, no node is set yet, and the requests are
  for the caches in order (the last cache may have none).
\<close>

definition pendingCaches ::
  "nat \<Rightarrow> (nat option \<times> solver) list \<Rightarrow> (nat \<times> cache) list \<Rightarrow> bool" where
  "pendingCaches h sol new =
     (\<exists>ids. sol = zip ids (map solverOf new)
        \<and> map fst new = [h ..< h + length new]
        \<and> (\<forall>pc \<in> set new. mNode (snd pc) = None))"

text \<open>
  Decoding a bone within the depth bound \<open>k\<close>, from an input shorter than \<open>k\<close>,
  returns and does not lengthen the input.
\<close>

definition returnsWithin :: "nat \<Rightarrow> bool" where
  "returnsWithin k =
     (\<forall>aIn aBone. length (input aIn) < k \<longrightarrow>
        (\<exists>ok b aIn'. deserializeBone k aIn aBone = Some (ok, b, aIn')
           \<and> length (input aIn') \<le> length (input aIn)))"

section \<open>Streams and keys for concrete evaluation\<close>

text \<open>
  A key with two caches (nodes 1 and 3), a registry that knows the nodes 0 to 5, the
  stream of a key with two caches on the nodes 1 and 3, and a stream whose two cache
  records both refer to node 5.
\<close>

definition exKey3 :: bonekey where
  "exKey3 = exKey1\<lparr>mCaches := mCaches exKey1 @ [(4, setNode Cache 3)]\<rparr>"

definition exResolve :: "nat \<Rightarrow> nat option" where
  "exResolve i = (if i \<le> 5 then Some i else None)"

definition exStream :: "token list" where
  "exStream = [TInt 0, TID (Some 0), TInt 2,
               TID (Some 1), TMatrix (Matrix4 2), TFrame 7, TInfluence (mInfluence Cache),
               TID (Some 3), TMatrix (Matrix4 0), TFrame 0, TInfluence (mInfluence Cache)]"

definition exStreamDup :: "token list" where
  "exStreamDup = [TInt 0, TID None, TInt 2,
               TID (Some 5), TMatrix (Matrix4 0), TFrame 0, TInfluence (mInfluence Cache),
               TID (Some 5), TMatrix (Matrix4 0), TFrame 0, TInfluence (mInfluence Cache)]"

section \<open>The bone forest as a value: \<^verbatim>\<open>BoneKey::Data\<close>\<close>

text \<open>
  Copying a \<open>Data\<close> depends on which objects are the same, so here the bones carry
  their heap address and the \<open>Data\<close> objects live in a store. A bone object owns its
  children. A \<^verbatim>\<open>Data&\<close> is the address of a \<open>Data\<close> object; \<open>topBonesOf\<close> gives the
  \<^verbatim>\<open>mTopBones\<close> of the object at an address (the empty list where none was built), and
  \<open>boneNext\<close> is the address the next \<^verbatim>\<open>new Bone2\<close> returns.
\<close>

datatype bone_obj = BoneObj (baddr: nat) (ofields: bone_fields) (ochildren: "bone_obj list")

record data_store =
  topBonesOf :: "nat \<Rightarrow> bone_obj list"
  boneNext :: nat

text \<open>
  Modelled from the spec: \<^verbatim>\<open>util::TreeUtil::createClone\<close> is not in the sources at hand;
  the spec says it makes a fully independent deep copy. Every bone of the copy is a
  new object; the allocator is threaded through.
\<close>

fun createClone :: "nat \<Rightarrow> bone_obj \<Rightarrow> bone_obj \<times> nat"
  and createClones :: "nat \<Rightarrow> bone_obj list \<Rightarrow> bone_obj list \<times> nat" where
  "createClone nxt (BoneObj a f cs) =
     (case createClones (Suc nxt) cs of (cs', nxt') \<Rightarrow> (BoneObj nxt f cs', nxt'))"
| "createClones nxt [] = ([], nxt)"
| "createClones nxt (b # bs) =
     (case createClone nxt b of
        (b', nxt1) \<Rightarrow> (case createClones nxt1 bs of (bs', nxt2) \<Rightarrow> (b' # bs', nxt2)))"

text \<open>\<^verbatim>\<open>BoneKey::Data::deleteAll\<close> on the object at \<open>this\<close>.\<close>

definition Data_deleteAll :: "data_store \<Rightarrow> nat \<Rightarrow> data_store" where
  "Data_deleteAll st this = st\<lparr>topBonesOf := (topBonesOf st)(this := [])\<rparr>"

text \<open>
  The loop both copies run: for each top bone of \<open>aRhs\<close>, as the store has it when the
  loop starts, a clone is pushed on the \<^verbatim>\<open>mTopBones\<close> of \<open>this\<close>.
\<close>

definition pushClones :: "data_store \<Rightarrow> nat \<Rightarrow> nat \<Rightarrow> data_store" where
  "pushClones st this aRhs =
     (case createClones (boneNext st) (topBonesOf st aRhs) of
        (clones, nxt) \<Rightarrow>
          st\<lparr>topBonesOf := (topBonesOf st)(this := topBonesOf st this @ clones),
             boneNext := nxt\<rparr>)"

text \<open>\<^verbatim>\<open>BoneKey::Data::Data(const Data&)\<close>: \<open>this\<close> is a new object, its list empty.\<close>

definition Data_copy :: "data_store \<Rightarrow> nat \<Rightarrow> nat \<Rightarrow> data_store" where
  "Data_copy st this aRhs =
     pushClones (st\<lparr>topBonesOf := (topBonesOf st)(this := [])\<rparr>) this aRhs"

text \<open>\<^verbatim>\<open>BoneKey::Data::operator=\<close>: \<open>deleteAll()\<close> first, then the loop over \<open>aRhs\<close>.\<close>

definition Data_assign :: "data_store \<Rightarrow> nat \<Rightarrow> nat \<Rightarrow> data_store" where
  "Data_assign st this aRhs = pushClones (Data_deleteAll st this) this aRhs"

text \<open>The bone tree of a bone object (its structure, the addresses forgotten).\<close>

fun shape :: "bone_obj \<Rightarrow> bone2" where
  "shape (BoneObj a f cs) = Bone2 f (map shape cs)"

text \<open>The addresses of the bone objects of a tree.\<close>

fun addrs :: "bone_obj \<Rightarrow> nat list" where
  "addrs (BoneObj a f cs) = a # concat (map addrs cs)"

text \<open>A store with one \<open>Data\<close> object, at address 0, that owns a bone with one child.\<close>

definition exStore :: data_store where
  "exStore = \<lparr>topBonesOf = (\<lambda>d. if d = 0 then [BoneObj 0 (BoneFields 1) [BoneObj 1 (BoneFields 2) []]]
                              else []),
              boneNext = 2\<rparr>"

section \<open>Properties of the core recompute\<close>

text \<open>
  C10. The core recompute with an empty target list returns at once: the bone key
  (its caches and its owner reference) and the project (hence its events: no write
  lock taken, no worker woken) are returned as they were, whether or not an owner is
  set.
\<close>

theorem updateCaches_empty_noop:
  "updateCaches prj [] key = Inr (prj, key)"
  by (simp add: updateCaches_def)

section \<open>Lemmas on the cache operations\<close>

lemma popCacheIn_Some:
  "popCacheIn cs n = (Some pc, cs') \<Longrightarrow> mNode (snd pc) = Some n"
  by (induction cs arbitrary: cs') (auto split: if_splits prod.splits)

lemma popCache_fields:
  "popCache key n = (r, key') \<Longrightarrow>
     keyFrame key' = keyFrame key \<and> mData key' = mData key \<and> heapNext key' = heapNext key
     \<and> mCacheOwner key' = mCacheOwner key"
  by (auto simp: popCache_def split: prod.splits)

lemma popCache_Some:
  "popCache key n = (Some pc, key') \<Longrightarrow> mNode (snd pc) = Some n"
  by (auto simp: popCache_def split: prod.splits dest: popCacheIn_Some)

lemma findValidCaches_nodes:
  "findValidCaches prj ns (key, acc) = (key', new) \<Longrightarrow>
     cacheNodes new = cacheNodes acc @ map Some (filter (hasAreaMesh prj (keyFrame key)) (map nid ns))
     \<and> keyFrame key' = keyFrame key \<and> mData key' = mData key"
proof (induction ns arbitrary: key acc)
  case Nil
  then show ?case by simp
next
  case (Cons node ns)
  show ?case
  proof (cases "hasAreaMesh prj (keyFrame key) (nid node)")
    case False
    with Cons.prems have "findValidCaches prj ns (key, acc) = (key', new)"
      by (auto simp: hasAreaMesh_def Let_def split: option.splits if_splits)
    from Cons.IH[OF this] False show ?thesis by simp
  next
    case True
    obtain r k1 where pop: "popCache key (nid node) = (r, k1)" by (cases "popCache key (nid node)")
    note pf = popCache_fields[OF pop]
    show ?thesis
    proof (cases r)
      case None
      with Cons.prems True pop
      have "findValidCaches prj ns (k1\<lparr>heapNext := Suc (heapNext k1)\<rparr>,
               acc @ [(heapNext k1, setNode Cache (nid node))]) = (key', new)"
        by (auto simp: hasAreaMesh_def Let_def split: option.splits if_splits)
      from Cons.IH[OF this] True pf show ?thesis
        by (simp add: cacheNodes_def setNode_def)
    next
      case (Some pc)
      with Cons.prems True pop
      have "findValidCaches prj ns (k1, acc @ [pc]) = (key', new)"
        by (auto simp: hasAreaMesh_def Let_def split: option.splits if_splits)
      from Cons.IH[OF this] True pf popCache_Some[OF pop[unfolded Some]] show ?thesis
        by (simp add: cacheNodes_def)
    qed
  qed
qed

lemma setCache_fst: "map fst (setCache p c cs) = map fst cs"
  by (induction cs) auto

lemma setCache_nodes:
  "map_of cs p = Some d \<Longrightarrow> mNode c = mNode d \<Longrightarrow> cacheNodes (setCache p c cs) = cacheNodes cs"
  by (induction cs) (auto simp: cacheNodes_def)

lemma setCache_others:
  "pc \<in> set cs \<Longrightarrow> fst pc \<noteq> p \<Longrightarrow> pc \<in> set (setCache p c cs)"
  by (induction cs) auto

lemma updateTarget_frame:
  assumes "updateTarget owner p (prj, key) = Inr (prj', key')"
  shows "prj'\<lparr>events := events prj\<rparr> = prj"
    and "key'\<lparr>mCaches := mCaches key\<rparr> = key"
    and "map fst (mCaches key') = map fst (mCaches key)"
    and "cacheNodes (mCaches key') = cacheNodes (mCaches key)"
    and "\<And>pc. pc \<in> set (mCaches key) \<Longrightarrow> fst pc \<noteq> p \<Longrightarrow> pc \<in> set (mCaches key')"
  using assms
  by (auto simp: updateTarget_def Let_def setCache_fst setCache_nodes setCache_others
           split: option.splits if_splits)

lemma updateTargets_frame:
  "updateTargets owner ps (prj, key) = Inr (prj', key') \<Longrightarrow>
     prj'\<lparr>events := events prj\<rparr> = prj
     \<and> key'\<lparr>mCaches := mCaches key\<rparr> = key
     \<and> map fst (mCaches key') = map fst (mCaches key)
     \<and> cacheNodes (mCaches key') = cacheNodes (mCaches key)
     \<and> (\<forall>pc \<in> set (mCaches key). fst pc \<notin> set ps \<longrightarrow> pc \<in> set (mCaches key'))"
proof (induction ps arbitrary: prj key)
  case Nil
  then show ?case by simp
next
  case (Cons p ps)
  from Cons.prems obtain prj1 key1 where
    step: "updateTarget owner p (prj, key) = Inr (prj1, key1)"
    and rest: "updateTargets owner ps (prj1, key1) = Inr (prj', key')"
    by (auto split: sum.splits)
  note f = updateTarget_frame[OF step]
  note ih = Cons.IH[OF rest]
  have a: "prj'\<lparr>events := events prj\<rparr> = prj"
  proof -
    have "prj'\<lparr>events := events prj\<rparr> = (prj'\<lparr>events := events prj1\<rparr>)\<lparr>events := events prj\<rparr>"
      by simp
    also have "\<dots> = prj1\<lparr>events := events prj\<rparr>" using ih by simp
    also have "\<dots> = prj" using f(1) by simp
    finally show ?thesis .
  qed
  have b: "key'\<lparr>mCaches := mCaches key\<rparr> = key"
  proof -
    have "key'\<lparr>mCaches := mCaches key\<rparr> = (key'\<lparr>mCaches := mCaches key1\<rparr>)\<lparr>mCaches := mCaches key\<rparr>"
      by simp
    also have "\<dots> = key1\<lparr>mCaches := mCaches key\<rparr>" using ih by simp
    also have "\<dots> = key" using f(2) by simp
    finally show ?thesis .
  qed
  have c: "map fst (mCaches key') = map fst (mCaches key)" using ih f(3) by simp
  have d: "cacheNodes (mCaches key') = cacheNodes (mCaches key)" using ih f(4) by simp
  have e: "\<forall>pc \<in> set (mCaches key). fst pc \<notin> set (p # ps) \<longrightarrow> pc \<in> set (mCaches key')"
    using ih f(5) by auto
  from a b c d e show ?case by blast
qed

lemma project_frameD:
  assumes "prj'\<lparr>events := e\<rparr> = prj"
  shows "getAreaMesh prj' = getAreaMesh prj" and "currentTimeInfo prj' = currentTimeInfo prj"
proof -
  have "getAreaMesh (prj'\<lparr>events := e\<rparr>) = getAreaMesh prj" using assms by simp
  then show "getAreaMesh prj' = getAreaMesh prj" by simp
  have "currentTimeInfo (prj'\<lparr>events := e\<rparr>) = currentTimeInfo prj" using assms by simp
  then show "currentTimeInfo prj' = currentTimeInfo prj" by simp
qed

lemma bonekey_frameD:
  assumes "key'\<lparr>mCaches := cs\<rparr> = key"
  shows "keyFrame key' = keyFrame key" and "mData key' = mData key"
    and "mCacheOwner key' = mCacheOwner key" and "heapNext key' = heapNext key"
proof -
  have "keyFrame (key'\<lparr>mCaches := cs\<rparr>) = keyFrame key" using assms by simp
  then show "keyFrame key' = keyFrame key" by simp
  have "mData (key'\<lparr>mCaches := cs\<rparr>) = mData key" using assms by simp
  then show "mData key' = mData key" by simp
  have "mCacheOwner (key'\<lparr>mCaches := cs\<rparr>) = mCacheOwner key" using assms by simp
  then show "mCacheOwner key' = mCacheOwner key" by simp
  have "heapNext (key'\<lparr>mCaches := cs\<rparr>) = heapNext key" using assms by simp
  then show "heapNext key' = heapNext key" by simp
qed

lemma updateTarget_succeeds:
  assumes "\<forall>x \<in> set (cacheNodes (mCaches key)). meshPresent prj (keyFrame key) x"
    and "p \<in> fst ` set (mCaches key)"
  shows "\<exists>st. updateTarget owner p (prj, key) = Inr st"
proof -
  from assms(2) obtain c where c: "map_of (mCaches key) p = Some c"
    by (metis domD dom_map_of_conv_image_fst)
  then have "(p, c) \<in> set (mCaches key)" by (rule map_of_SomeD)
  then have "mNode c \<in> set (cacheNodes (mCaches key))" by (force simp: cacheNodes_def)
  with assms(1) have "meshPresent prj (keyFrame key) (mNode c)" by blast
  with c show ?thesis
    by (auto simp: updateTarget_def meshPresent_def Let_def split: option.splits)
qed

lemma updateTargets_succeeds:
  "\<forall>x \<in> set (cacheNodes (mCaches key)). meshPresent prj (keyFrame key) x \<Longrightarrow>
   set ps \<subseteq> fst ` set (mCaches key) \<Longrightarrow>
   \<exists>st. updateTargets owner ps (prj, key) = Inr st"
proof (induction ps arbitrary: prj key)
  case Nil
  then show ?case by simp
next
  case (Cons p ps)
  from Cons.prems have "p \<in> fst ` set (mCaches key)" by simp
  from updateTarget_succeeds[OF Cons.prems(1) this]
  obtain prj1 key1 where step: "updateTarget owner p (prj, key) = Inr (prj1, key1)"
    by (metis surj_pair)
  note f = updateTarget_frame[OF step]
  have same: "meshPresent prj1 (keyFrame key1) = meshPresent prj (keyFrame key)"
    using project_frameD[OF f(1)] bonekey_frameD(1)[OF f(2)]
    by (intro ext) (simp add: meshPresent_def split: option.splits)
  have 1: "\<forall>x \<in> set (cacheNodes (mCaches key1)). meshPresent prj1 (keyFrame key1) x"
    using Cons.prems(1) f(4) same by simp
  have "fst ` set (mCaches key1) = fst ` set (mCaches key)"
    using f(3) by (metis set_map)
  with Cons.prems(2) have 2: "set ps \<subseteq> fst ` set (mCaches key1)" by simp
  from Cons.IH[OF 1 2] step show ?case by simp
qed

lemma asyncTargets_append: "asyncTargets (xs @ ys) = asyncTargets xs @ asyncTargets ys"
  by (induction xs rule: asyncTargets.induct) auto

lemma updateTarget_events:
  "updateTarget owner p (prj, key) = Inr (prj', key') \<Longrightarrow>
     set (asyncTargets (events prj')) \<subseteq> set (asyncTargets (events prj)) \<union> {p}"
  by (auto simp: updateTarget_def Let_def asyncTargets_append split: option.splits if_splits)

lemma updateTargets_events:
  "updateTargets owner ps (prj, key) = Inr (prj', key') \<Longrightarrow>
     set (asyncTargets (events prj')) \<subseteq> set (asyncTargets (events prj)) \<union> set ps"
proof (induction ps arbitrary: prj key)
  case Nil
  then show ?case by simp
next
  case (Cons p ps)
  from Cons.prems obtain prj1 key1 where
    step: "updateTarget owner p (prj, key) = Inr (prj1, key1)"
    and rest: "updateTargets owner ps (prj1, key1) = Inr (prj', key')"
    by (auto split: sum.splits)
  from updateTarget_events[OF step] Cons.IH[OF rest] show ?case by auto
qed

lemma updateCaches_frame:
  assumes "updateCaches prj ps key = Inr (prj', key')"
  shows "prj'\<lparr>events := events prj\<rparr> = prj
    \<and> key'\<lparr>mCaches := mCaches key\<rparr> = key
    \<and> map fst (mCaches key') = map fst (mCaches key)
    \<and> cacheNodes (mCaches key') = cacheNodes (mCaches key)
    \<and> (\<forall>pc \<in> set (mCaches key). fst pc \<notin> set ps \<longrightarrow> pc \<in> set (mCaches key'))
    \<and> set (asyncTargets (events prj')) \<subseteq> set (asyncTargets (events prj)) \<union> set ps"
proof (cases "ps = []")
  case True
  with assms have "prj' = prj" "key' = key" by (simp_all add: updateCaches_def)
  then show ?thesis by simp
next
  case False
  with assms obtain owner prj1 where
    run: "updateTargets owner ps (prj\<lparr>events := events prj @ [WriteLock]\<rparr>, key) = Inr (prj1, key')"
    and fin: "prj' = prj1\<lparr>events := events prj1 @ [WakeAll, WriteUnlock]\<rparr>"
    by (auto simp: updateCaches_def split: option.splits sum.splits)
  note f = updateTargets_frame[OF run] and e = updateTargets_events[OF run]
  from f have "prj1\<lparr>events := events prj @ [WriteLock]\<rparr> = prj\<lparr>events := events prj @ [WriteLock]\<rparr>"
    by simp
  then have "(prj1\<lparr>events := events prj @ [WriteLock]\<rparr>)\<lparr>events := events prj\<rparr>
               = (prj\<lparr>events := events prj @ [WriteLock]\<rparr>)\<lparr>events := events prj\<rparr>"
    by (rule arg_cong)
  then have a: "prj'\<lparr>events := events prj\<rparr> = prj" using fin by simp
  have b: "set (asyncTargets (events prj')) \<subseteq> set (asyncTargets (events prj)) \<union> set ps"
    using e fin by (simp add: asyncTargets_append)
  from a b f show ?thesis by simp
qed

lemma updateCaches_succeeds:
  assumes "mCacheOwner key \<noteq> None"
    and "\<forall>x \<in> set (cacheNodes (mCaches key)). meshPresent prj (keyFrame key) x"
    and "set ps \<subseteq> fst ` set (mCaches key)"
  shows "\<exists>st. updateCaches prj ps key = Inr st"
proof -
  from assms(1) obtain owner where o: "mCacheOwner key = Some owner" by auto
  let ?prj = "prj\<lparr>events := events prj @ [WriteLock]\<rparr>"
  have "meshPresent ?prj (keyFrame key) = meshPresent prj (keyFrame key)"
    by (intro ext) (simp add: meshPresent_def split: option.splits)
  with assms(2) have "\<forall>x \<in> set (cacheNodes (mCaches key)). meshPresent ?prj (keyFrame key) x"
    by simp
  from updateTargets_succeeds[OF this assms(3), of owner] o show ?thesis
    by (auto simp: updateCaches_def split: sum.splits)
qed

lemma hasAreaMesh_meshPresent: "hasAreaMesh prj fr n \<Longrightarrow> meshPresent prj fr (Some n)"
  by (auto simp: hasAreaMesh_def meshPresent_def split: option.splits)

lemma resetCaches_result:
  "\<exists>prj' key'. resetCaches prj aOwner key = Inr (prj', key')
     \<and> cacheNodes (mCaches key')
         = map Some (filter (hasAreaMesh prj (keyFrame key)) (map nid (iterate aOwner)))
     \<and> keyFrame key' = keyFrame key \<and> mData key' = mData key
     \<and> mCacheOwner key' = Some (nid aOwner)
     \<and> prj'\<lparr>events := events prj\<rparr> = prj"
proof -
  obtain key1 new where fv: "findValidCaches prj (iterate aOwner) (key, []) = (key1, new)"
    by (cases "findValidCaches prj (iterate aOwner) (key, [])")
  define key4 where "key4 = key1\<lparr>mCaches := new, mCacheOwner := Some (nid aOwner)\<rparr>"
  have rc: "resetCaches prj aOwner key = updateCaches prj (map fst new) key4"
    by (simp add: resetCaches_def fv destroyCaches_def key4_def Let_def)
  from findValidCaches_nodes[OF fv]
  have nodes: "cacheNodes new
                 = map Some (filter (hasAreaMesh prj (keyFrame key)) (map nid (iterate aOwner)))"
    and kf: "keyFrame key1 = keyFrame key" and md: "mData key1 = mData key"
    by (simp_all add: cacheNodes_def)
  have 1: "mCacheOwner key4 \<noteq> None" by (simp add: key4_def)
  have 2: "\<forall>x \<in> set (cacheNodes (mCaches key4)). meshPresent prj (keyFrame key4) x"
    using nodes kf by (auto simp: key4_def hasAreaMesh_meshPresent)
  have 3: "set (map fst new) \<subseteq> fst ` set (mCaches key4)" by (simp add: key4_def)
  from updateCaches_succeeds[OF 1 2 3] obtain prj' key' where
    ok: "updateCaches prj (map fst new) key4 = Inr (prj', key')" by (metis surj_pair)
  have f1: "prj'\<lparr>events := events prj\<rparr> = prj"
    and f2: "key'\<lparr>mCaches := mCaches key4\<rparr> = key4"
    and f4: "cacheNodes (mCaches key') = cacheNodes (mCaches key4)"
    using updateCaches_frame[OF ok] by blast+
  note k = bonekey_frameD[OF f2]
  have "cacheNodes (mCaches key') = cacheNodes new" using f4 by (simp add: key4_def)
  moreover have "keyFrame key' = keyFrame key" using k(1) kf by (simp add: key4_def)
  moreover have "mData key' = mData key" using k(2) md by (simp add: key4_def)
  moreover have "mCacheOwner key' = Some (nid aOwner)" using k(3) by (simp add: key4_def)
  ultimately show ?thesis using rc ok nodes f1 by simp
qed

lemma findValidCaches_reuse:
  "cacheNodes (mCaches key) = map Some (filter (hasAreaMesh prj (keyFrame key)) (map nid ns)) \<Longrightarrow>
   findValidCaches prj ns (key, acc) = (key\<lparr>mCaches := []\<rparr>, acc @ mCaches key)"
proof (induction ns arbitrary: key acc)
  case Nil
  then show ?case by (simp add: cacheNodes_def)
next
  case (Cons node ns)
  show ?case
  proof (cases "hasAreaMesh prj (keyFrame key) (nid node)")
    case False
    with Cons.prems have "cacheNodes (mCaches key)
        = map Some (filter (hasAreaMesh prj (keyFrame key)) (map nid ns))" by simp
    from Cons.IH[OF this, of acc] False show ?thesis
      by (auto simp: hasAreaMesh_def Let_def split: option.splits)
  next
    case True
    with Cons.prems obtain pc cs where cs: "mCaches key = pc # cs"
      and pc: "mNode (snd pc) = Some (nid node)"
      and rest: "cacheNodes cs = map Some (filter (hasAreaMesh prj (keyFrame key)) (map nid ns))"
      by (cases "mCaches key") (auto simp: cacheNodes_def)
    have pop: "popCache key (nid node) = (Some pc, key\<lparr>mCaches := cs\<rparr>)"
      using cs pc by (cases pc) (simp add: popCache_def)
    have "cacheNodes (mCaches (key\<lparr>mCaches := cs\<rparr>))
        = map Some (filter (hasAreaMesh prj (keyFrame (key\<lparr>mCaches := cs\<rparr>))) (map nid ns))"
      using rest by simp
    from Cons.IH[OF this, of "acc @ [pc]"]
    have "findValidCaches prj ns (key\<lparr>mCaches := cs\<rparr>, acc @ [pc])
            = (key\<lparr>mCaches := []\<rparr>, acc @ mCaches key)"
      using cs by simp
    with True pop show ?thesis
      by (auto simp: hasAreaMesh_def Let_def split: option.splits)
  qed
qed

lemma findCacheIn_Some:
  "findCacheIn cs n = Some pc \<Longrightarrow> pc \<in> set cs \<and> mNode (snd pc) = Some n"
  by (induction cs) (auto split: if_splits)

lemma findCacheIn_same_address:
  "map fst cs = map fst cs' \<Longrightarrow> cacheNodes cs = cacheNodes cs' \<Longrightarrow>
   map_option fst (findCacheIn cs n) = map_option fst (findCacheIn cs' n)"
proof (induction cs arbitrary: cs')
  case Nil
  then show ?case by simp
next
  case (Cons a cs)
  then obtain b cs2 where cs': "cs' = b # cs2" by (cases cs') auto
  obtain p c where a: "a = (p, c)" by (cases a)
  obtain q d where b: "b = (q, d)" by (cases b)
  from Cons.prems have 1: "p = q" and 2: "mNode c = mNode d"
    and 3: "map fst cs = map fst cs2" and 4: "cacheNodes cs = cacheNodes cs2"
    by (simp_all add: cacheNodes_def cs' a b)
  from Cons.IH[OF 3 4] show ?case by (simp add: cs' a b 1 2)
qed

lemma hasAreaMesh_events:
  assumes "prj'\<lparr>events := e\<rparr> = prj"
  shows "hasAreaMesh prj' fr = hasAreaMesh prj fr"
proof -
  note d = project_frameD[OF assms]
  show ?thesis
    unfolding hasAreaMesh_def d ..
qed

text \<open>
  C4. When \<open>resetCaches\<close> has returned and is called again with the same owner, the
  scene and the meshes unchanged (the project of the second call is the one the first
  call returned), the second call returns too, the cache list holds the same addresses
  in the same order, no cache was allocated, and the cache found for any node is the
  very object (same address) that was found for it after the first call.
\<close>

theorem resetCaches_reuse:
  assumes "resetCaches prj aOwner key = Inr (prj1, key1)"
  shows "\<exists>prj2 key2. resetCaches prj1 aOwner key1 = Inr (prj2, key2)
           \<and> map fst (mCaches key2) = map fst (mCaches key1)
           \<and> heapNext key2 = heapNext key1
           \<and> (\<forall>n p c. findCache key2 n = Some (p, c) \<longrightarrow> (\<exists>c1. findCache key1 n = Some (p, c1)))"
proof -
  from resetCaches_result[of prj aOwner key] obtain prj' key' where
    r: "resetCaches prj aOwner key = Inr (prj', key')"
    and nodes': "cacheNodes (mCaches key')
                 = map Some (filter (hasAreaMesh prj (keyFrame key)) (map nid (iterate aOwner)))"
    and kf': "keyFrame key' = keyFrame key"
    and ow': "mCacheOwner key' = Some (nid aOwner)"
    and pf': "prj'\<lparr>events := events prj\<rparr> = prj"
    by blast
  from r assms have eq: "prj' = prj1" "key' = key1" by simp_all
  note nodes1 = nodes'[unfolded eq] and kf = kf'[unfolded eq] and ow = ow'[unfolded eq]
    and pf = pf'[unfolded eq]
  have "cacheNodes (mCaches key1)
          = map Some (filter (hasAreaMesh prj1 (keyFrame key1)) (map nid (iterate aOwner)))"
    using nodes1 kf hasAreaMesh_events[OF pf] by simp
  from findValidCaches_reuse[OF this, of "[]"]
  have fv: "findValidCaches prj1 (iterate aOwner) (key1, []) = (key1\<lparr>mCaches := []\<rparr>, mCaches key1)"
    by simp
  have k4: "key1\<lparr>mCacheOwner := Some (nid aOwner)\<rparr> = key1"
    using ow by (cases key1) simp
  have rc: "resetCaches prj1 aOwner key1 = updateCaches prj1 (map fst (mCaches key1)) key1"
    by (simp add: resetCaches_def fv destroyCaches_def Let_def k4)
  from resetCaches_result[of prj1 aOwner key1] obtain prj2 key2 where
    ok: "resetCaches prj1 aOwner key1 = Inr (prj2, key2)" by blast
  with rc have up: "updateCaches prj1 (map fst (mCaches key1)) key1 = Inr (prj2, key2)" by simp
  have f2: "key2\<lparr>mCaches := mCaches key1\<rparr> = key1"
    and f3: "map fst (mCaches key2) = map fst (mCaches key1)"
    and f4: "cacheNodes (mCaches key2) = cacheNodes (mCaches key1)"
    using updateCaches_frame[OF up] by blast+
  have hn: "heapNext key2 = heapNext key1" using bonekey_frameD(4)[OF f2] .
  have same: "\<forall>n p c. findCache key2 n = Some (p, c) \<longrightarrow> (\<exists>c1. findCache key1 n = Some (p, c1))"
  proof (intro allI impI)
    fix n p c
    assume "findCache key2 n = Some (p, c)"
    then have "map_option fst (findCacheIn (mCaches key2) n) = Some p"
      by (simp add: findCache_def)
    with findCacheIn_same_address[OF f3 f4, of n]
    have "map_option fst (findCacheIn (mCaches key1) n) = Some p" by simp
    then show "\<exists>c1. findCache key1 n = Some (p, c1)"
      by (auto simp: findCache_def)
  qed
  from ok f3 hn same show ?thesis by blast
qed

lemma in_cacheNodes: "x \<in> set (cacheNodes cs) \<longleftrightarrow> (\<exists>pc \<in> set cs. mNode (snd pc) = x)"
  by (induction cs) (auto simp: cacheNodes_def)

text \<open>
  C3. \<open>resetCaches\<close> returns, and afterwards, for every node \<open>n\<close> of the owner's
  subtree, the collection holds a cache bound to \<open>n\<close> exactly when \<open>n\<close> has a mesh
  with more than zero vertices at the current time with the frame set to the key's
  frame. This holds whatever caches the key held before.
\<close>

theorem resetCaches_pruning:
  "\<exists>prj' key'. resetCaches prj aOwner key = Inr (prj', key')
     \<and> (\<forall>n \<in> set (iterate aOwner).
          (\<exists>pc \<in> set (mCaches key'). mNode (snd pc) = Some (nid n))
          \<longleftrightarrow> (\<exists>mesh. getAreaMesh prj (nid n) ((currentTimeInfo prj)\<lparr>frame := keyFrame key\<rparr>)
                         = Some mesh \<and> 0 < vertexCount mesh))"
proof -
  from resetCaches_result[of prj aOwner key] obtain prj' key' where
    ok: "resetCaches prj aOwner key = Inr (prj', key')"
    and nodes: "cacheNodes (mCaches key')
                 = map Some (filter (hasAreaMesh prj (keyFrame key)) (map nid (iterate aOwner)))"
    by blast
  have "(\<exists>pc \<in> set (mCaches key'). mNode (snd pc) = Some (nid n))
          \<longleftrightarrow> (\<exists>mesh. getAreaMesh prj (nid n) ((currentTimeInfo prj)\<lparr>frame := keyFrame key\<rparr>)
                         = Some mesh \<and> 0 < vertexCount mesh)"
    if n: "n \<in> set (iterate aOwner)" for n
  proof -
    have "(\<exists>pc \<in> set (mCaches key'). mNode (snd pc) = Some (nid n))
            \<longleftrightarrow> Some (nid n) \<in> set (cacheNodes (mCaches key'))"
      by (simp add: in_cacheNodes)
    also have "\<dots> \<longleftrightarrow> hasAreaMesh prj (keyFrame key) (nid n)"
      using n by (auto simp: nodes)
    also have "\<dots> \<longleftrightarrow> (\<exists>mesh. getAreaMesh prj (nid n) ((currentTimeInfo prj)\<lparr>frame := keyFrame key\<rparr>)
                         = Some mesh \<and> 0 < vertexCount mesh)"
      by (auto simp: hasAreaMesh_def split: option.splits)
    finally show ?thesis .
  qed
  with ok show ?thesis by blast
qed

lemma findCache_Some:
  "findCache key n = Some (p, c) \<Longrightarrow> (p, c) \<in> set (mCaches key) \<and> mNode c = Some n"
  using findCacheIn_Some[of "mCaches key" n "(p, c)"] by (simp add: findCache_def)

lemma collectNodes_distinct:
  "distinct acc \<Longrightarrow> distinct (collectNodes key ns acc)"
  by (induction ns arbitrary: acc) (auto split: option.splits)

lemma collectNodes_subset:
  "set (collectNodes key ns acc) \<subseteq> set acc \<union> {p. cacheOfNodes key ns p}"
proof (induction ns arbitrary: acc)
  case Nil
  then show ?case by simp
next
  case (Cons node ns)
  have mono: "{p. cacheOfNodes key ns p} \<subseteq> {p. cacheOfNodes key (node # ns) p}"
    by (auto simp: cacheOfNodes_def)
  show ?case
  proof (cases "findCache key (nid node)")
    case None
    with Cons.IH[of acc] mono show ?thesis by auto
  next
    case (Some pc)
    obtain p c where pc: "pc = (p, c)" by (cases pc)
    from findCache_Some[OF Some[unfolded pc]]
    have "cacheOfNodes key (node # ns) p" by (force simp: cacheOfNodes_def)
    with Cons.IH[of acc] Cons.IH[of "acc @ [p]"] mono Some pc show ?thesis by auto
  qed
qed

lemma cacheOfNodes_mono: "set ns \<subseteq> set ms \<Longrightarrow> cacheOfNodes key ns p \<Longrightarrow> cacheOfNodes key ms p"
  by (auto simp: cacheOfNodes_def)

lemma collectRoots_distinct:
  "distinct acc \<Longrightarrow> distinct (collectRoots key aOwner roots acc)"
  by (induction roots arbitrary: acc) (auto simp: collectNodes_distinct)

lemma collectRoots_subset:
  "set (collectRoots key aOwner roots acc)
     \<subseteq> set acc \<union> {p. cacheOfNodes key (qualifyingNodes aOwner roots) p}"
proof (induction roots arbitrary: acc)
  case Nil
  then show ?case by simp
next
  case (Cons root roots)
  show ?case
  proof (cases "leftContainsRight aOwner root")
    case False
    then have "qualifyingNodes aOwner (root # roots) = qualifyingNodes aOwner roots"
      by (simp add: qualifyingNodes_def)
    with Cons.IH[of acc] False show ?thesis by simp
  next
    case True
    then have q: "qualifyingNodes aOwner (root # roots) = iterate root @ qualifyingNodes aOwner roots"
      by (simp add: qualifyingNodes_def)
    have 1: "{p. cacheOfNodes key (iterate root) p} \<subseteq> {p. cacheOfNodes key (qualifyingNodes aOwner (root # roots)) p}"
      using cacheOfNodes_mono[of "iterate root" "qualifyingNodes aOwner (root # roots)"] q by auto
    have 2: "{p. cacheOfNodes key (qualifyingNodes aOwner roots) p} \<subseteq> {p. cacheOfNodes key (qualifyingNodes aOwner (root # roots)) p}"
      using cacheOfNodes_mono[of "qualifyingNodes aOwner roots" "qualifyingNodes aOwner (root # roots)"] q by auto
    from Cons.IH[of "collectNodes key (iterate root) acc"] collectNodes_subset[of key "iterate root" acc]
      1 2 True show ?thesis by auto
  qed
qed

text \<open>
  C5. The list the targeted update collects and hands to the core recompute is free
  of duplicates, and each collected cache is an existing cache bound to a node in the
  subtree of a root that lies inside (or is) the owner. When the call returns, on a
  collection whose caches have distinct addresses: the cache list keeps its addresses
  and the allocator its value (no cache is created), and a cache whose node lies under
  no such root keeps its contents and gets no asynchronous write scheduled.
\<close>

theorem updateCachesRoots_scoping:
  "distinct (collectRoots key aOwner roots [])
    \<and> (\<forall>p \<in> set (collectRoots key aOwner roots []).
          \<exists>c root n. (p, c) \<in> set (mCaches key) \<and> root \<in> set roots
            \<and> leftContainsRight aOwner root \<and> n \<in> set (iterate root) \<and> mNode c = Some (nid n))
    \<and> (updateCachesRoots prj aOwner roots key = Inr (prj', key')
          \<and> distinct (map fst (mCaches key)) \<longrightarrow>
        map fst (mCaches key') = map fst (mCaches key)
        \<and> heapNext key' = heapNext key
        \<and> (\<forall>pc \<in> set (mCaches key).
              (\<forall>root \<in> set roots. leftContainsRight aOwner root
                   \<longrightarrow> mNode (snd pc) \<notin> Some ` nid ` set (iterate root))
              \<longrightarrow> pc \<in> set (mCaches key')
                  \<and> (fst pc \<in> set (asyncTargets (events prj'))
                        \<longrightarrow> fst pc \<in> set (asyncTargets (events prj)))))"
proof -
  let ?caches = "collectRoots key aOwner roots []"
  let ?key = "key\<lparr>mCacheOwner := Some (nid aOwner)\<rparr>"
  have d: "distinct ?caches" by (simp add: collectRoots_distinct)
  have sub: "\<forall>p \<in> set ?caches. cacheOfNodes key (qualifyingNodes aOwner roots) p"
    using collectRoots_subset[of key aOwner roots "[]"] by auto
  have inside: "\<exists>c root n. (p, c) \<in> set (mCaches key) \<and> root \<in> set roots
            \<and> leftContainsRight aOwner root \<and> n \<in> set (iterate root) \<and> mNode c = Some (nid n)"
    if "p \<in> set ?caches" for p
  proof -
    from sub that obtain c where c: "(p, c) \<in> set (mCaches key)"
      and n: "mNode c \<in> Some ` nid ` set (qualifyingNodes aOwner roots)"
      by (auto simp: cacheOfNodes_def)
    from n obtain m where m: "m \<in> set (qualifyingNodes aOwner roots)" and mc: "mNode c = Some (nid m)"
      by auto
    from m obtain root where "root \<in> set roots" "leftContainsRight aOwner root" "m \<in> set (iterate root)"
      by (auto simp: qualifyingNodes_def)
    with c mc show ?thesis by blast
  qed
  have rest: "map fst (mCaches key') = map fst (mCaches key)
        \<and> heapNext key' = heapNext key
        \<and> (\<forall>pc \<in> set (mCaches key).
              (\<forall>root \<in> set roots. leftContainsRight aOwner root
                   \<longrightarrow> mNode (snd pc) \<notin> Some ` nid ` set (iterate root))
              \<longrightarrow> pc \<in> set (mCaches key')
                  \<and> (fst pc \<in> set (asyncTargets (events prj'))
                        \<longrightarrow> fst pc \<in> set (asyncTargets (events prj))))"
    if run: "updateCachesRoots prj aOwner roots key = Inr (prj', key')"
      and addr: "distinct (map fst (mCaches key))"
  proof -
    from run have up: "updateCaches prj ?caches ?key = Inr (prj', key')"
      by (simp add: updateCachesRoots_def Let_def split: if_splits)
    have f2: "key'\<lparr>mCaches := mCaches ?key\<rparr> = ?key"
      and f3: "map fst (mCaches key') = map fst (mCaches ?key)"
      and f5: "\<forall>pc \<in> set (mCaches ?key). fst pc \<notin> set ?caches \<longrightarrow> pc \<in> set (mCaches key')"
      and f6: "set (asyncTargets (events prj')) \<subseteq> set (asyncTargets (events prj)) \<union> set ?caches"
      using updateCaches_frame[OF up] by blast+
    have hn: "heapNext key' = heapNext key" using bonekey_frameD(4)[OF f2] by simp
    have outside: "pc \<in> set (mCaches key')
                \<and> (fst pc \<in> set (asyncTargets (events prj'))
                      \<longrightarrow> fst pc \<in> set (asyncTargets (events prj)))"
      if pc: "pc \<in> set (mCaches key)"
        and out: "\<forall>root \<in> set roots. leftContainsRight aOwner root
                 \<longrightarrow> mNode (snd pc) \<notin> Some ` nid ` set (iterate root)" for pc
    proof -
      have notin: "fst pc \<notin> set ?caches"
      proof
        assume "fst pc \<in> set ?caches"
        from inside[OF this] obtain c root n where c: "(fst pc, c) \<in> set (mCaches key)"
          and r: "root \<in> set roots" "leftContainsRight aOwner root" "n \<in> set (iterate root)"
          and mc: "mNode c = Some (nid n)" by blast
        from pc have "(fst pc, snd pc) \<in> set (mCaches key)" by simp
        with c addr have "c = snd pc" by (meson eq_key_imp_eq_value)
        with mc r out show False by auto
      qed
      with f5 pc have "pc \<in> set (mCaches key')" by simp
      moreover from f6 notin have "fst pc \<in> set (asyncTargets (events prj'))
                      \<longrightarrow> fst pc \<in> set (asyncTargets (events prj))" by auto
      ultimately show ?thesis by simp
    qed
    from f3 hn outside show ?thesis by simp
  qed
  from d inside rest show ?thesis by blast
qed

text \<open>
  C1. The core recompute on a target whose node has no mesh: the frame sign is read
  through the null mesh pointer before the pointer is tested, so the batch does not
  complete. The claim (the target is skipped and the batch goes on) fails here.
\<close>

theorem updateCaches_absent_mesh:
  assumes "mCacheOwner key = Some owner"
    and "map_of (mCaches key) p = Some c"
    and "mNode c = Some node"
    and "getAreaMesh prj node ((currentTimeInfo prj)\<lparr>frame := keyFrame key\<rparr>) = None"
  shows "updateCaches prj (p # ps) key = Inl NullDereference"
  using assms by (simp add: updateCaches_def updateTarget_def)

lemma exTree_iterate:
  "iterate exTree = [exTree, ObjectNode 1 [], ObjectNode 2 [ObjectNode 3 []], ObjectNode 3 []]"
  by (simp add: exTree_def)

lemma resetCaches_example:
  "resetCaches exProject exTree exKey = Inr (exProject1, exKey1)"
  by (simp add: resetCaches_def exTree_iterate)
     (simp add: exTree_def exProject_def exKey_def exProject1_def exKey1_def popCache_def
        setNode_def Cache_def destroyCaches_def updateCaches_def updateTarget_def
        allocate_def kMaxBoneCount_def Let_def eval_nat_numeral)

text \<open>
  Witness for C4 on the small scene.
\<close>

theorem resetCaches_reuse_witness:
  "resetCaches exProject exTree exKey = Inr (exProject1, exKey1)
   \<and> (\<exists>prj2 key2. resetCaches exProject1 exTree exKey1 = Inr (prj2, key2)
         \<and> map fst (mCaches key2) = [1] \<and> heapNext key2 = 2
         \<and> (\<forall>n p c. findCache key2 n = Some (p, c) \<longrightarrow> (\<exists>c1. findCache exKey1 n = Some (p, c1))))"
  using resetCaches_reuse[OF resetCaches_example] resetCaches_example
  by (simp add: exKey1_def)

text \<open>
  Witness for C3 on the small scene: node 1 (four vertices) gets a cache, node 2 (empty
  mesh) loses the one it had.
\<close>

theorem resetCaches_pruning_witness:
  "ObjectNode 1 [] \<in> set (iterate exTree) \<and> ObjectNode 2 [ObjectNode 3 []] \<in> set (iterate exTree)
   \<and> (\<exists>prj' key'. resetCaches exProject exTree exKey = Inr (prj', key')
         \<and> (\<exists>pc \<in> set (mCaches key'). mNode (snd pc) = Some 1)
         \<and> \<not> (\<exists>pc \<in> set (mCaches key'). mNode (snd pc) = Some 2))"
proof -
  have m1: "ObjectNode 1 [] \<in> set (iterate exTree)"
    and m2: "ObjectNode 2 [ObjectNode 3 []] \<in> set (iterate exTree)"
    by (simp_all add: exTree_iterate)
  have g1: "\<exists>mesh. getAreaMesh exProject (nid (ObjectNode 1 []))
                 ((currentTimeInfo exProject)\<lparr>frame := keyFrame exKey\<rparr>) = Some mesh
              \<and> 0 < vertexCount mesh"
    by (simp add: exProject_def)
  have g2: "\<not> (\<exists>mesh. getAreaMesh exProject (nid (ObjectNode 2 [ObjectNode 3 []]))
                 ((currentTimeInfo exProject)\<lparr>frame := keyFrame exKey\<rparr>) = Some mesh
              \<and> 0 < vertexCount mesh)"
    by (simp add: exProject_def)
  from resetCaches_pruning[of exProject exTree exKey] obtain prj' key' where
    ok: "resetCaches exProject exTree exKey = Inr (prj', key')"
    and iff: "\<forall>n \<in> set (iterate exTree).
          (\<exists>pc \<in> set (mCaches key'). mNode (snd pc) = Some (nid n))
          \<longleftrightarrow> (\<exists>mesh. getAreaMesh exProject (nid n)
                        ((currentTimeInfo exProject)\<lparr>frame := keyFrame exKey\<rparr>)
                         = Some mesh \<and> 0 < vertexCount mesh)"
    by blast
  from iff[rule_format, OF m1] g1
  have a: "\<exists>pc \<in> set (mCaches key'). mNode (snd pc) = Some 1" by simp
  from iff[rule_format, OF m2] g2
  have b: "\<not> (\<exists>pc \<in> set (mCaches key'). mNode (snd pc) = Some 2)" by simp
  from m1 m2 ok a b show ?thesis by blast
qed

text \<open>
  Witness for C1: the first target is bound to node 3, which has no mesh.
\<close>

theorem updateCaches_absent_mesh_witness:
  "updateCaches exProject [1, 0] exKey2 = Inl NullDereference"
  using updateCaches_absent_mesh[of exKey2 0 1 "setNode Cache 3" 3 exProject "[0]"]
  by (simp add: exKey2_def exKey_def exProject_def setNode_def)

lemma updateCachesRoots_example:
  "updateCachesRoots exProject exTree [ObjectNode 1 [], ObjectNode 9 []] exKey2
     = Inr (exProject\<lparr>events :=
               [WriteLock,
                WriteAsync 0 (mData exKey) (Matrix4 2) \<lparr>frameSign = 7, vertexCount = 4\<rparr>,
                WakeAll, WriteUnlock]\<rparr>,
            exKey2\<lparr>mCaches :=
               [(0, \<lparr>mInfluence = \<lparr>maxBoneCount = 32, mapVertexCount = 4, weights = []\<rparr>,
                     mNode = Some 1, mInnerMtx = Matrix4 2, mFrameSign = 7\<rparr>),
                (1, setNode Cache 3)]\<rparr>)"
  by (simp add: updateCachesRoots_def leftContainsRight_def exTree_iterate findCache_def)
     (simp add: exTree_def exProject_def exKey_def exKey2_def 
        setNode_def Cache_def updateCaches_def updateTarget_def
        allocate_def kMaxBoneCount_def Let_def eval_nat_numeral)

text \<open>
  Witness for C5: of the roots 1 and 9 only root 1 lies inside the owner; the cache of
  node 3 is left as it was.
\<close>

theorem updateCachesRoots_scoping_witness:
  "distinct (map fst (mCaches exKey2))
   \<and> collectRoots exKey2 exTree [ObjectNode 1 [], ObjectNode 9 []] [] = [0]
   \<and> (\<exists>prj' key'. updateCachesRoots exProject exTree [ObjectNode 1 [], ObjectNode 9 []] exKey2
                      = Inr (prj', key')
         \<and> (1, setNode Cache 3) \<in> set (mCaches key')
         \<and> 1 \<notin> set (asyncTargets (events prj')))"
proof -
  have d: "distinct (map fst (mCaches exKey2))" by (simp add: exKey2_def)
  have c: "collectRoots exKey2 exTree [ObjectNode 1 [], ObjectNode 9 []] [] = [0]"
    by (simp add: leftContainsRight_def exTree_iterate findCache_def)
       (simp add: exKey2_def setNode_def)
  have pc: "(1, setNode Cache 3) \<in> set (mCaches exKey2)" by (simp add: exKey2_def)
  have out: "\<forall>root \<in> set [ObjectNode 1 [], ObjectNode 9 []]. leftContainsRight exTree root
               \<longrightarrow> mNode (snd (1::nat, setNode Cache 3)) \<notin> Some ` nid ` set (iterate root)"
    by (simp add: setNode_def)
  have e: "asyncTargets (events exProject) = []" by (simp add: exProject_def)
  from updateCachesRoots_scoping[of exKey2 exTree "[ObjectNode 1 [], ObjectNode 9 []]" exProject]
    updateCachesRoots_example d pc out e
  have "(1, setNode Cache 3) \<in> set (mCaches (exKey2\<lparr>mCaches :=
               [(0, \<lparr>mInfluence = \<lparr>maxBoneCount = 32, mapVertexCount = 4, weights = []\<rparr>,
                     mNode = Some 1, mInnerMtx = Matrix4 2, mFrameSign = 7\<rparr>),
                (1, setNode Cache 3)]\<rparr>))
      \<and> 1 \<notin> set (asyncTargets (events (exProject\<lparr>events :=
               [WriteLock,
                WriteAsync 0 (mData exKey) (Matrix4 2) \<lparr>frameSign = 7, vertexCount = 4\<rparr>,
                WakeAll, WriteUnlock]\<rparr>)))"
    by simp
  with d c updateCachesRoots_example show ?thesis by blast
qed

section \<open>Lemmas on the serialization protocol\<close>

text \<open>
  The decode always returns: the bound \<open>deserialize\<close> sets on the depth of bones is
  never reached, whatever the stream.
\<close>

lemma readInt_input:
  "readInt aIn v = (n, aIn') \<Longrightarrow>
     length (input aIn') \<le> length (input aIn)
     \<and> (failed aIn' \<or> length (input aIn') < length (input aIn))"
  by (auto simp: readInt_def split: if_splits list.splits token.splits)

lemma Bone2_deserialize_input:
  "Bone2_deserialize aIn v = (ok, f, aIn') \<Longrightarrow>
     length (input aIn') \<le> length (input aIn) \<and> (failed aIn \<longrightarrow> \<not> ok)"
  by (auto simp: Bone2_deserialize_def split: if_splits list.splits token.splits)

lemma deserializeChildren_returns:
  assumes "returnsWithin k"
  shows "length (input aIn) < k \<Longrightarrow>
         \<exists>ok b aIn'. deserializeChildren k n aIn aBone = Some (ok, b, aIn')
           \<and> length (input aIn') \<le> length (input aIn)"
proof (induction n arbitrary: aIn aBone)
  case 0
  then show ?case by auto
next
  case (Suc n)
  from assms[unfolded returnsWithin_def, rule_format, OF Suc.prems, of newBone2]
  obtain ok1 child in1 where r1: "deserializeBone k aIn newBone2 = Some (ok1, child, in1)"
    and l1: "length (input in1) \<le> length (input aIn)" by blast
  show ?case
  proof (cases ok1)
    case False
    with r1 l1 show ?thesis by (auto simp: Let_def)
  next
    case True
    from l1 Suc.prems have "length (input in1) < k" by simp
    from Suc.IH[OF this, of "Bone2 (bfields aBone) (bchildren aBone @ [child])"]
    obtain ok b aIn' where
      "deserializeChildren k n in1 (Bone2 (bfields aBone) (bchildren aBone @ [child])) = Some (ok, b, aIn')"
      "length (input aIn') \<le> length (input in1)" by blast
    with r1 True l1 show ?thesis by (auto simp: Let_def)
  qed
qed

lemma returnsWithin: "returnsWithin k"
proof (induction k)
  case 0
  then show ?case by (simp add: returnsWithin_def)
next
  case (Suc k)
  show ?case
    unfolding returnsWithin_def
  proof (intro allI impI)
    fix aIn :: deserializer and aBone
    assume len: "length (input aIn) < Suc k"
    obtain c in1 where r1: "readInt aIn 0 = (c, in1)" by (cases "readInt aIn 0")
    note i1 = readInt_input[OF r1]
    show "\<exists>ok b aIn'. deserializeBone (Suc k) aIn aBone = Some (ok, b, aIn')
           \<and> length (input aIn') \<le> length (input aIn)"
    proof (cases "c < 0")
      case True
      with r1 i1 show ?thesis by (auto simp: errored_def)
    next
      case nonneg: False
      obtain ok2 f in2 where r2: "Bone2_deserialize in1 (bfields aBone) = (ok2, f, in2)"
        by (cases "Bone2_deserialize in1 (bfields aBone)")
      note i2 = Bone2_deserialize_input[OF r2]
      show ?thesis
      proof (cases ok2)
        case False
        with r1 r2 nonneg i1 i2 show ?thesis by auto
      next
        case True
        with i2 have "\<not> failed in1" by blast
        with i1 len i2 have l2: "length (input in2) < k" by simp
        from deserializeChildren_returns[OF Suc.IH l2, of "nat c" "Bone2 f (bchildren aBone)"]
        obtain ok3 b in3 where
          r3: "deserializeChildren k (nat c) in2 (Bone2 f (bchildren aBone)) = Some (ok3, b, in3)"
          and l3: "length (input in3) \<le> length (input in2)" by blast
        from l3 i1 i2 have "length (input in3) \<le> length (input aIn)" by simp
        with r1 r2 nonneg True r3 show ?thesis by (cases ok3) auto
      qed
    qed
  qed
qed

lemma deserializeTopBones_returns:
  "length (input aIn) < k \<Longrightarrow> \<exists>r. deserializeTopBones k n aIn key = Some r"
proof (induction n arbitrary: aIn key)
  case 0
  then show ?case by auto
next
  case (Suc n)
  from returnsWithin[of k, unfolded returnsWithin_def, rule_format, OF Suc.prems, of newBone2]
  obtain ok1 b in1 where r1: "deserializeBone k aIn newBone2 = Some (ok1, b, in1)"
    and l1: "length (input in1) \<le> length (input aIn)" by blast
  show ?case
  proof (cases ok1)
    case False
    with r1 show ?thesis by (auto simp: Let_def)
  next
    case True
    from l1 Suc.prems have "length (input in1) < k" by simp
    from Suc.IH[OF this, of "key\<lparr>mData := mData key @ [b]\<rparr>"] r1 True
    show ?thesis by (auto simp: Let_def)
  qed
qed

lemma deserialize_returns: "\<exists>r. deserialize aIn key = Some r"
proof -
  define k where "k = Suc (length (input aIn))"
  define in0 where "in0 = pushLogScope aIn ''BoneKey''"
  define key1 where "key1 = destroyCaches (deleteAll key)"
  obtain t in1 where r1: "readInt in0 0 = (t, in1)" by (cases "readInt in0 0")
  have "length (input in1) < k"
    using readInt_input[OF r1] by (simp add: k_def in0_def pushLogScope_def)
  from deserializeTopBones_returns[OF this, of "nat t" key1]
  obtain ok2 in2 key2 where r2: "deserializeTopBones k (nat t) in1 key1 = Some (ok2, in2, key2)"
    by (metis prod_cases3)
  show ?thesis
    unfolding deserialize_def k_def[symmetric] deserializeWithin_def Let_def
    unfolding in0_def[symmetric] key1_def[symmetric] r1 prod.case
    by (auto simp: r2 errored_def split: bool.splits prod.splits)
qed

lemma load_returns: "\<exists>r. load resolve ts key = Some r"
  using deserialize_returns[of "reader ts" key]
  by (auto simp: load_def split: bool.splits)

lemma serializeBone_enc:
  "serializeBone aOut b = (True, aOut @ encBone b)"
  "serializeBones aOut bs = (True, aOut @ concat (map encBone bs))"
  by (induction aOut b and aOut bs rule: serializeBone_serializeBones.induct)
     (simp_all add: Bone2_serialize_def checkStreamOut_def)

lemma serializeCaches_enc:
  "serializeCaches aOut cs = (True, aOut @ concat (map encCache cs))"
  by (induction cs arbitrary: aOut)
     (simp_all add: BoneInfluenceMap_serialize_def encCache_def)

lemma serialize_enc:
  "serialize key aOut =
     (True, aOut @ TInt (int (length (mData key))) # concat (map encBone (mData key))
              @ TID (mCacheOwner key) # TInt (int (length (mCaches key)))
              # concat (map encCache (map snd (mCaches key))))"
  by (simp add: serialize_def serializeBone_enc serializeCaches_enc checkStreamOut_def)

lemma fold_max_le: "fold max xs (a::nat) \<le> k \<longleftrightarrow> a \<le> k \<and> (\<forall>x \<in> set xs. x \<le> k)"
  by (induction xs arbitrary: a) auto

lemma depth_children: "depth (Bone2 f cs) \<le> Suc k \<longleftrightarrow> (\<forall>c \<in> set cs. depth c \<le> k)"
  by (simp add: fold_max_le)

lemma deserializeChildren_prefix:
  assumes "\<forall>c \<in> set cs. decodesBone c" and "\<forall>c \<in> set cs. depth c \<le> k"
    and "\<not> failed aIn" and "input aIn = concat (map encBone cs) @ rest"
  shows "deserializeChildren k (length cs + m) aIn aBone
           = deserializeChildren k m (aIn\<lparr>input := rest\<rparr>)
               (Bone2 (bfields aBone) (bchildren aBone @ cs))"
  using assms
proof (induction cs arbitrary: aIn aBone)
  case Nil
  then have "rest = input aIn" by simp
  then show ?case by (cases aBone) simp
next
  case (Cons c cs)
  from Cons.prems have dc: "decodesBone c" and k: "depth c \<le> k" by simp_all
  from Cons.prems have inp: "input aIn = encBone c @ (concat (map encBone cs) @ rest)" by simp
  from dc[unfolded decodesBone_def, rule_format, OF k Cons.prems(3) inp, of newBone2]
  have step: "deserializeBone k aIn newBone2
                = Some (True, c, aIn\<lparr>input := concat (map encBone cs) @ rest\<rparr>)"
    by (cases c) (simp add: newBone2_def)
  let ?in1 = "aIn\<lparr>input := concat (map encBone cs) @ rest\<rparr>"
  let ?b = "Bone2 (bfields aBone) (bchildren aBone @ [c])"
  have "deserializeChildren k (length cs + m) ?in1 ?b
          = deserializeChildren k m (?in1\<lparr>input := rest\<rparr>)
               (Bone2 (bfields ?b) (bchildren ?b @ cs))"
    using Cons.prems by (intro Cons.IH) simp_all
  with step show ?case by simp
qed

lemma decodesBone: "decodesBone b"
proof (induction b)
  case (Bone2 f cs)
  show ?case
    unfolding decodesBone_def
  proof (intro allI impI)
    fix k and aIn :: deserializer and aBone rest
    assume d: "depth (Bone2 f cs) \<le> k" and nf: "\<not> failed aIn"
      and inp: "input aIn = encBone (Bone2 f cs) @ rest"
    from d obtain k' where k: "k = Suc k'" by (cases k) auto
    with d have dk: "\<forall>c \<in> set cs. depth c \<le> k'" using depth_children by blast
    let ?in2 = "aIn\<lparr>input := concat (map encBone cs) @ rest\<rparr>"
    have r1: "readInt aIn 0 = (int (length cs), aIn\<lparr>input := TBone f # concat (map encBone cs) @ rest\<rparr>)"
      using nf inp by (simp add: readInt_def)
    have r2: "Bone2_deserialize (aIn\<lparr>input := TBone f # concat (map encBone cs) @ rest\<rparr>) (bfields aBone)
                = (True, f, ?in2)"
      using nf by (simp add: Bone2_deserialize_def)
    have "deserializeChildren k' (length cs + 0) ?in2 (Bone2 f (bchildren aBone))
            = deserializeChildren k' 0 (?in2\<lparr>input := rest\<rparr>)
                (Bone2 (bfields (Bone2 f (bchildren aBone))) (bchildren (Bone2 f (bchildren aBone)) @ cs))"
      using Bone2.IH dk nf by (intro deserializeChildren_prefix) simp_all
    then have r3: "deserializeChildren k' (length cs) ?in2 (Bone2 f (bchildren aBone))
            = Some (True, Bone2 f (bchildren aBone @ cs), aIn\<lparr>input := rest\<rparr>)"
      by simp
    show "deserializeBone k aIn aBone
          = Some (True, Bone2 (bfields (Bone2 f cs)) (bchildren aBone @ bchildren (Bone2 f cs)),
                  aIn\<lparr>input := rest\<rparr>)"
      using nf by (simp add: k r1 r2 r3 checkStream_def)
  qed
qed

lemma deserializeBone_enc:
  assumes "depth b \<le> k" and "\<not> failed aIn" and "input aIn = encBone b @ rest"
  shows "deserializeBone k aIn newBone2 = Some (True, b, aIn\<lparr>input := rest\<rparr>)"
  using decodesBone[of b, unfolded decodesBone_def, rule_format, OF assms, of newBone2]
  by (cases b) (simp add: newBone2_def)

lemma deserializeChildren_enc:
  assumes "\<forall>c \<in> set cs. depth c \<le> k" and "\<not> failed aIn"
    and "input aIn = concat (map encBone cs) @ rest"
  shows "deserializeChildren k (length cs + m) aIn aBone
           = deserializeChildren k m (aIn\<lparr>input := rest\<rparr>)
               (Bone2 (bfields aBone) (bchildren aBone @ cs))"
  using assms by (intro deserializeChildren_prefix) (simp_all add: decodesBone)

lemma deserializeTopBones_enc:
  assumes "\<forall>c \<in> set bs. depth c \<le> k" and "\<not> failed aIn"
    and "input aIn = concat (map encBone bs) @ rest"
  shows "deserializeTopBones k (length bs + m) aIn key
           = deserializeTopBones k m (aIn\<lparr>input := rest\<rparr>) (key\<lparr>mData := mData key @ bs\<rparr>)"
  using assms
proof (induction bs arbitrary: aIn key)
  case Nil
  then have "rest = input aIn" by simp
  then show ?case by simp
next
  case (Cons b bs)
  from Cons.prems have inp: "input aIn = encBone b @ (concat (map encBone bs) @ rest)" by simp
  from Cons.prems have k: "depth b \<le> k" by simp
  note step = deserializeBone_enc[OF k Cons.prems(2) inp]
  let ?in1 = "aIn\<lparr>input := concat (map encBone bs) @ rest\<rparr>"
  let ?key1 = "key\<lparr>mData := mData key @ [b]\<rparr>"
  have "deserializeTopBones k (length bs + m) ?in1 ?key1
          = deserializeTopBones k m (?in1\<lparr>input := rest\<rparr>) (?key1\<lparr>mData := mData ?key1 @ bs\<rparr>)"
    using Cons.prems by (intro Cons.IH) simp_all
  with step show ?case by simp
qed

lemma depth_le_enc: "depth b \<le> length (encBone b)"
proof (induction b)
  case (Bone2 f cs)
  have "fold max (map depth cs) 0 \<le> length (concat (map encBone cs))"
    unfolding fold_max_le
  proof (intro conjI ballI)
    fix x assume "x \<in> set (map depth cs)"
    then obtain c where c: "c \<in> set cs" and x: "x = depth c" by auto
    from c obtain xs ys where "cs = xs @ c # ys" by (meson split_list)
    then have "length (encBone c) \<le> length (concat (map encBone cs))" by simp
    with Bone2.IH[OF c] x show "x \<le> length (concat (map encBone cs))" by simp
  qed simp
  then show ?case by simp
qed

lemma depth_le_concat:
  "c \<in> set cs \<Longrightarrow> depth c \<le> length (concat (map encBone cs))"
proof -
  assume c: "c \<in> set cs"
  then obtain xs ys where "cs = xs @ c # ys" by (meson split_list)
  then have "length (encBone c) \<le> length (concat (map encBone cs))" by simp
  with depth_le_enc[of c] show ?thesis by simp
qed

lemma deserializeCaches_enc:
  "\<not> failed aIn \<Longrightarrow> input aIn = concat (map encCache cs) @ rest \<Longrightarrow>
   deserializeCaches (length cs) aIn key
     = (True,
        aIn\<lparr>input := rest,
            idSolvers := idSolvers aIn
               @ zip (map mNode cs) (map CacheSolver [heapNext key ..< heapNext key + length cs])\<rparr>,
        key\<lparr>heapNext := heapNext key + length cs,
            mCaches := mCaches key
               @ zip [heapNext key ..< heapNext key + length cs] (map unbound cs)\<rparr>)"
proof (induction cs arbitrary: aIn key)
  case Nil
  then have "rest = input aIn" by simp
  then show ?case by simp
next
  case (Cons c cs)
  let ?p = "heapNext key"
  let ?in4 = "aIn\<lparr>idSolvers := idSolvers aIn @ [(mNode c, CacheSolver ?p)],
                  input := concat (map encCache cs) @ rest\<rparr>"
  let ?key1 = "key\<lparr>heapNext := Suc ?p, mCaches := mCaches key @ [(?p, unbound c)]\<rparr>"
  have c': "Cache\<lparr>mInnerMtx := mInnerMtx c, mFrameSign := mFrameSign c, mInfluence := mInfluence c\<rparr>
              = unbound c"
    by (simp add: Cache_def unbound_def)
  have e: "encCache c = [TID (mNode c), TMatrix (mInnerMtx c), TFrame (mFrameSign c),
                          TInfluence (mInfluence c)]"
    by (simp add: encCache_def)
  have step: "deserializeCaches (Suc (length cs)) aIn key = deserializeCaches (length cs) ?in4 ?key1"
    using Cons.prems
    by (simp add: e orderIDData_def readMatrix_def readFrame_def
          BoneInfluenceMap_deserialize_def Let_def c')
  have nf: "\<not> failed ?in4" using Cons.prems by simp
  have inp: "input ?in4 = concat (map encCache cs) @ rest" by simp
  have "deserializeCaches (length (c # cs)) aIn key = deserializeCaches (length cs) ?in4 ?key1"
    using step by simp
  also note Cons.IH[OF nf inp]
  finally show ?case
    by (simp add: upt_conv_Cons del: upt_Suc)
qed

lemma map_of_append_fresh:
  "a \<notin> fst ` set pre \<Longrightarrow> map_of (pre @ (a, x) # rest) a = Some x"
  by (induction pre) auto

lemma setCache_append_fresh:
  "a \<notin> fst ` set pre \<Longrightarrow> setCache a y (pre @ (a, x) # rest) = pre @ (a, y) # rest"
  by (induction pre) auto

lemma setNode_unbound: "mNode c = Some n \<Longrightarrow> setNode (unbound c) n = c"
  by (simp add: setNode_def unbound_def)

lemma unbound_None: "mNode c = None \<Longrightarrow> unbound c = c"
  by (simp add: unbound_def)

lemma solveIDs_caches_roundtrip:
  assumes "\<forall>c \<in> set cs. \<forall>n. mNode c = Some n \<longrightarrow> resolve n = Some n"
  shows "distinct as \<Longrightarrow> length as = length cs \<Longrightarrow> set as \<inter> fst ` set pre = {} \<Longrightarrow>
         solveIDs resolve (zip (map mNode cs) (map CacheSolver as))
            (key\<lparr>mCaches := pre @ zip as (map unbound cs)\<rparr>)
           = (True, key\<lparr>mCaches := pre @ zip as cs\<rparr>)"
  using assms
proof (induction cs arbitrary: as pre)
  case Nil
  then show ?case by simp
next
  case (Cons c cs)
  from Cons.prems(2) obtain a as' where as: "as = a # as'" by (cases as) auto
  with Cons.prems have d: "distinct as'" and l: "length as' = length cs"
    and fr: "a \<notin> fst ` set pre" and a: "a \<notin> set as'"
    and dj: "set as' \<inter> fst ` set (pre @ [(a, c)]) = {}"
    and r: "\<forall>c \<in> set cs. \<forall>n. mNode c = Some n \<longrightarrow> resolve n = Some n"
    by auto
  note ih = Cons.IH[OF d l dj r]
  show ?case
  proof (cases "mNode c")
    case None
    with ih show ?thesis by (simp add: as unbound_None)
  next
    case (Some n)
    with Cons.prems have rn: "resolve n = Some n" by simp
    have "applySolver (CacheSolver a) (Some n)
            (key\<lparr>mCaches := pre @ (a, unbound c) # zip as' (map unbound cs)\<rparr>)
          = key\<lparr>mCaches := (pre @ [(a, c)]) @ zip as' (map unbound cs)\<rparr>"
      by (simp add: map_of_append_fresh[OF fr] setCache_append_fresh[OF fr] setNode_unbound[OF Some]
            del: map_of_append)
    with ih Some rn show ?thesis by (simp add: as)
  qed
qed

lemma bonekey_init:
  "destroyCaches (deleteAll key) = key\<lparr>mData := [], mCaches := [], mCacheOwner := None\<rparr>"
  by (simp add: destroyCaches_def deleteAll_def)

lemma deserialize_encKey:
  "deserialize (reader (encKey x)) key
     = Some (True,
         \<lparr>input = [], failed = False, logScopes = [], errorLog = [],
          idSolvers = (mCacheOwner x, OwnerSolver)
             # zip (map mNode (map snd (mCaches x)))
                   (map CacheSolver [heapNext key ..< heapNext key + length (mCaches x)])\<rparr>,
         key\<lparr>mData := mData x,
             mCaches := zip [heapNext key ..< heapNext key + length (mCaches x)]
                            (map unbound (map snd (mCaches x))),
             mCacheOwner := None,
             heapNext := heapNext key + length (mCaches x)\<rparr>)"
proof -
  define bs where "bs = mData x"
  define cs where "cs = map snd (mCaches x)"
  define k where "k = Suc (length (encKey x))"
  define rest2 where "rest2 = TID (mCacheOwner x) # TInt (int (length cs)) # concat (map encCache cs)"
  define in0 where "in0 = pushLogScope (reader (encKey x)) ''BoneKey''"
  define in1 where "in1 = in0\<lparr>input := concat (map encBone bs) @ rest2\<rparr>"
  define key1 where "key1 = key\<lparr>mData := [], mCaches := [], mCacheOwner := None\<rparr>"
  define in2 where "in2 = in0\<lparr>input := rest2\<rparr>"
  define key2 where "key2 = key\<lparr>mData := bs, mCaches := [], mCacheOwner := None\<rparr>"
  define in3 where "in3 = in0\<lparr>input := TInt (int (length cs)) # concat (map encCache cs),
                              idSolvers := [(mCacheOwner x, OwnerSolver)]\<rparr>"
  define in4 where "in4 = in0\<lparr>input := concat (map encCache cs) @ [],
                              idSolvers := [(mCacheOwner x, OwnerSolver)]\<rparr>"
  define in5 where "in5 = in4\<lparr>input := [],
            idSolvers := idSolvers in4
               @ zip (map mNode cs) (map CacheSolver [heapNext key2 ..< heapNext key2 + length cs])\<rparr>"
  define key3 where "key3 = key2\<lparr>heapNext := heapNext key2 + length cs,
            mCaches := mCaches key2
               @ zip [heapNext key2 ..< heapNext key2 + length cs] (map unbound cs)\<rparr>"
  have enc: "encKey x = TInt (int (length bs)) # concat (map encBone bs) @ rest2"
    by (simp add: encKey_def bs_def cs_def rest2_def)
  have in0: "input in0 = encKey x" "\<not> failed in0" "idSolvers in0 = []"
    by (simp_all add: in0_def pushLogScope_def reader_def)
  have r1: "readInt in0 0 = (int (length bs), in1)"
    using in0 by (simp add: readInt_def in1_def enc)
  have dk: "\<forall>c \<in> set bs. depth c \<le> k"
  proof
    fix c assume "c \<in> set bs"
    from depth_le_concat[OF this] show "depth c \<le> k" by (simp add: k_def enc)
  qed
  have nf1: "\<not> failed in1" and inp1: "input in1 = concat (map encBone bs) @ rest2"
    using in0 by (simp_all add: in1_def)
  have "deserializeTopBones k (length bs + 0) in1 key1
          = deserializeTopBones k 0 (in1\<lparr>input := rest2\<rparr>) (key1\<lparr>mData := mData key1 @ bs\<rparr>)"
    using dk nf1 inp1 by (rule deserializeTopBones_enc)
  then have r2: "deserializeTopBones k (length bs) in1 key1 = Some (True, in2, key2)"
    by (simp add: in1_def in2_def key1_def key2_def)
  have r3: "orderIDData in2 OwnerSolver = (True, in3)"
    using in0 by (simp add: orderIDData_def in2_def in3_def rest2_def)
  have r4: "readInt in3 0 = (int (length cs), in4)"
    using in0 by (simp add: readInt_def in3_def in4_def)
  have nf4: "\<not> failed in4" and inp4: "input in4 = concat (map encCache cs) @ []"
    using in0 by (simp_all add: in4_def)
  have r5: "deserializeCaches (length cs) in4 key2 = (True, in5, key3)"
    unfolding in5_def key3_def using nf4 inp4 by (rule deserializeCaches_enc)
  have len: "Suc (length (input (reader (encKey x)))) = k"
    by (simp add: reader_def k_def)
  have "deserialize (reader (encKey x)) key
          = Some (checkStream (popLogScope in5), popLogScope in5, key3)"
    unfolding deserialize_def len deserializeWithin_def bonekey_init Let_def
    unfolding in0_def[symmetric] key1_def[symmetric]
    by (simp add: r1 r2 r3 r4 r5)
  also have "popLogScope in5 = \<lparr>input = [], failed = False, logScopes = [], errorLog = [],
          idSolvers = (mCacheOwner x, OwnerSolver)
             # zip (map mNode cs) (map CacheSolver [heapNext key ..< heapNext key + length cs])\<rparr>"
    by (simp add: popLogScope_def in5_def in4_def in0_def pushLogScope_def reader_def key2_def)
  also have "key3 = key\<lparr>mData := mData x,
             mCaches := zip [heapNext key ..< heapNext key + length (mCaches x)]
                            (map unbound (map snd (mCaches x))),
             mCacheOwner := None,
             heapNext := heapNext key + length (mCaches x)\<rparr>"
    by (simp add: key3_def key2_def bs_def cs_def)
  finally show ?thesis
    by (simp add: checkStream_def cs_def)
qed

lemma solveIDs_encKey:
  assumes "\<forall>n. mCacheOwner x = Some n \<or> Some n \<in> set (cacheNodes (mCaches x)) \<longrightarrow> resolve n = Some n"
  shows "solveIDs resolve
           ((mCacheOwner x, OwnerSolver)
             # zip (map mNode (map snd (mCaches x)))
                   (map CacheSolver [h ..< h + length (mCaches x)]))
           (key\<lparr>mCaches := zip [h ..< h + length (mCaches x)] (map unbound (map snd (mCaches x))),
                mCacheOwner := None\<rparr>)
         = (True, key\<lparr>mCaches := zip [h ..< h + length (mCaches x)] (map snd (mCaches x)),
                       mCacheOwner := mCacheOwner x\<rparr>)"
proof -
  let ?as = "[h ..< h + length (mCaches x)]" and ?cs = "map snd (mCaches x)"
  have r: "\<forall>c \<in> set ?cs. \<forall>n. mNode c = Some n \<longrightarrow> resolve n = Some n"
  proof (intro ballI allI impI)
    fix c n assume "c \<in> set ?cs" and n: "mNode c = Some n"
    then have "Some n \<in> set (cacheNodes (mCaches x))" by (force simp: cacheNodes_def)
    with assms show "resolve n = Some n" by blast
  qed
  have caches: "solveIDs resolve (zip (map mNode ?cs) (map CacheSolver ?as))
            (k\<lparr>mCaches := [] @ zip ?as (map unbound ?cs)\<rparr>)
           = (True, k\<lparr>mCaches := [] @ zip ?as ?cs\<rparr>)" for k
    using r by (intro solveIDs_caches_roundtrip) simp_all
  show ?thesis
  proof (cases "mCacheOwner x")
    case None
    with caches[of "key\<lparr>mCacheOwner := None\<rparr>"] show ?thesis by (cases key) simp
  next
    case (Some n)
    with assms have "resolve n = Some n" by blast
    with Some caches[of "key\<lparr>mCacheOwner := Some n\<rparr>"] show ?thesis by (cases key) simp
  qed
qed

text \<open>
  C2. For every bone key \<open>x\<close>: \<open>serialize\<close> succeeds, and decoding the stream it wrote
  into any key, with the post-load pass resolving every node reference of \<open>x\<close> (its
  owner and the nodes of its caches) to the node it stands for, succeeds and yields the
  same bone forest (same topology, fields and order), the same number of caches, the
  same contents of each cache in order (node, inner matrix, frame sign, influence map)
  and the same owner.
\<close>

theorem serialize_deserialize_roundtrip:
  assumes "\<forall>n. mCacheOwner x = Some n \<or> Some n \<in> set (cacheNodes (mCaches x)) \<longrightarrow> resolve n = Some n"
  shows "\<exists>ts key'. serialize x [] = (True, ts) \<and> load resolve ts key = Some (True, key')
           \<and> mData key' = mData x
           \<and> length (mCaches key') = length (mCaches x)
           \<and> map snd (mCaches key') = map snd (mCaches x)
           \<and> mCacheOwner key' = mCacheOwner x"
proof -
  let ?h = "heapNext key"
  let ?as = "[?h ..< ?h + length (mCaches x)]"
  let ?key' = "key\<lparr>mData := mData x, mCaches := zip ?as (map snd (mCaches x)),
                   mCacheOwner := mCacheOwner x, heapNext := ?h + length (mCaches x)\<rparr>"
  have s: "serialize x [] = (True, encKey x)"
    by (simp add: serialize_enc encKey_def)
  have "solveIDs resolve
           ((mCacheOwner x, OwnerSolver)
             # zip (map mNode (map snd (mCaches x))) (map CacheSolver ?as))
           ((key\<lparr>mData := mData x, heapNext := ?h + length (mCaches x)\<rparr>)
              \<lparr>mCaches := zip ?as (map unbound (map snd (mCaches x))), mCacheOwner := None\<rparr>)
         = (True, (key\<lparr>mData := mData x, heapNext := ?h + length (mCaches x)\<rparr>)
              \<lparr>mCaches := zip ?as (map snd (mCaches x)), mCacheOwner := mCacheOwner x\<rparr>)"
    using assms by (rule solveIDs_encKey)
  then have l: "load resolve (encKey x) key = Some (True, ?key')"
    by (cases key) (simp add: load_def deserialize_encKey)
  have "map snd (mCaches ?key') = map snd (mCaches x)" by simp
  with s l show ?thesis by simp
qed

lemma deserializeBone_negative:
  assumes "\<not> failed aIn" and "input aIn = TInt n # rest" and "n < 0"
  shows "deserializeBone (Suc k) aIn aBone
           = Some (False, aBone,
                   aIn\<lparr>input := rest,
                       errorLog := errorLog aIn @ [(logScopes aIn, ''invalid child count'')]\<rparr>)"
  using assms by (simp add: readInt_def errored_def)

lemma deserializeBone_reads_negative:
  "readsNegativeChildCount ts \<Longrightarrow> length ts \<le> k \<Longrightarrow> \<not> failed aIn \<Longrightarrow> input aIn = ts \<Longrightarrow>
   \<exists>b aIn'. deserializeBone k aIn aBone = Some (False, b, aIn')
     \<and> errorLog aIn' = errorLog aIn @ [(logScopes aIn, ''invalid child count'')]
     \<and> logScopes aIn' = logScopes aIn"
proof (induction arbitrary: k aIn aBone rule: readsNegativeChildCount.induct)
  case (here n rest)
  then obtain k' where "k = Suc k'" by (cases k) auto
  with deserializeBone_negative[OF here(3,4,1), of k' aBone] show ?case by simp
next
  case (below cs c ts f)
  from below.prems obtain k' where k: "k = Suc k'"
    and k': "length (concat (map encBone cs)) + length ts \<le> k'" by (cases k) auto
  define in1 where "in1 = aIn\<lparr>input := TBone f # concat (map encBone cs) @ ts\<rparr>"
  define in2 where "in2 = aIn\<lparr>input := concat (map encBone cs) @ ts\<rparr>"
  define in3 where "in3 = in2\<lparr>input := ts\<rparr>"
  define B where "B = Bone2 f (bchildren aBone)"
  define B' where "B' = Bone2 (bfields B) (bchildren B @ cs)"
  define m where "m = c - Suc (length cs)"
  have m: "c = length cs + Suc m"
    using below.hyps(1) by (simp add: m_def)
  have r1: "readInt aIn 0 = (int c, in1)"
    using below.prems by (simp add: readInt_def in1_def)
  have r2: "Bone2_deserialize in1 (bfields aBone) = (True, f, in2)"
    using below.prems by (simp add: Bone2_deserialize_def in1_def in2_def)
  have dk: "\<forall>c \<in> set cs. depth c \<le> k'"
  proof
    fix x assume "x \<in> set cs"
    from depth_le_concat[OF this] k' show "depth x \<le> k'" by simp
  qed
  have nf2: "\<not> failed in2" and inp2: "input in2 = concat (map encBone cs) @ ts"
    using below.prems by (simp_all add: in2_def)
  have r3: "deserializeChildren k' (length cs + Suc m) in2 B = deserializeChildren k' (Suc m) in3 B'"
    unfolding in3_def B'_def using dk nf2 inp2 by (rule deserializeChildren_enc)
  have "length ts \<le> k'" "\<not> failed in3" "input in3 = ts"
    using k' below.prems by (simp_all add: in3_def in2_def)
  from below.IH[OF this, of newBone2] obtain b aIn' where
    r4: "deserializeBone k' in3 newBone2 = Some (False, b, aIn')"
    and log: "errorLog aIn' = errorLog in3 @ [(logScopes in3, ''invalid child count'')]"
    and sc: "logScopes aIn' = logScopes in3"
    by blast
  have r5: "deserializeChildren k' (Suc m) in3 B'
              = Some (False, Bone2 (bfields B') (bchildren B' @ [b]), aIn')"
    by (simp add: r4)
  have r6: "deserializeChildren k' c in2 B
              = Some (False, Bone2 (bfields B') (bchildren B' @ [b]), aIn')"
    unfolding m r3 r5 ..
  have "deserializeBone k aIn aBone = Some (False, Bone2 (bfields B') (bchildren B' @ [b]), aIn')"
    unfolding k deserializeBone.simps r1 prod.case
    by (simp add: r2 r6 B_def[symmetric] del: deserializeChildren.simps)
  moreover have "errorLog aIn' = errorLog aIn @ [(logScopes aIn, ''invalid child count'')]"
    using log by (simp add: in3_def in2_def)
  moreover have "logScopes aIn' = logScopes aIn"
    using sc by (simp add: in3_def in2_def)
  ultimately show ?case by blast
qed

lemma deserialize_negative_top:
  assumes "\<not> failed aIn" and "input aIn = TInt n # rest" and "n < 0"
  shows "deserialize aIn key
           = Some (False,
                   aIn\<lparr>input := rest, logScopes := ''BoneKey'' # logScopes aIn,
                       errorLog := errorLog aIn @ [(''BoneKey'' # logScopes aIn, ''invalid top bone count'')]\<rparr>,
                   key\<lparr>mData := [], mCaches := [], mCacheOwner := None\<rparr>)"
  using assms
  by (cases aIn)
     (simp add: deserialize_def deserializeWithin_def bonekey_init pushLogScope_def readInt_def
        errored_def)

lemma deserialize_negative_child:
  assumes nf: "\<not> failed aIn"
    and inp: "input aIn = TInt (int t) # concat (map encBone bs) @ ts"
    and t: "length bs < t" and bad: "readsNegativeChildCount ts"
  shows "\<exists>aIn' key'. deserialize aIn key = Some (False, aIn', key')
           \<and> errorLog aIn' = errorLog aIn @ [(''BoneKey'' # logScopes aIn, ''invalid child count'')]"
proof -
  define k where "k = Suc (length (input aIn))"
  define in0 where "in0 = pushLogScope aIn ''BoneKey''"
  define in1 where "in1 = in0\<lparr>input := concat (map encBone bs) @ ts\<rparr>"
  define in2 where "in2 = in1\<lparr>input := ts\<rparr>"
  define key1 where "key1 = key\<lparr>mData := [], mCaches := [], mCacheOwner := None\<rparr>"
  define key2 where "key2 = key1\<lparr>mData := mData key1 @ bs\<rparr>"
  define m where "m = t - Suc (length bs)"
  have m: "t = length bs + Suc m" using t by (simp add: m_def)
  have in0: "\<not> failed in0" "input in0 = input aIn" "logScopes in0 = ''BoneKey'' # logScopes aIn"
    "errorLog in0 = errorLog aIn"
    using nf by (simp_all add: in0_def pushLogScope_def)
  have r1: "readInt in0 0 = (int t, in1)"
    using in0 inp by (simp add: readInt_def in1_def)
  have dk: "\<forall>c \<in> set bs. depth c \<le> k"
  proof
    fix c assume "c \<in> set bs"
    from depth_le_concat[OF this] show "depth c \<le> k" by (simp add: k_def inp)
  qed
  have nf1: "\<not> failed in1" and inp1: "input in1 = concat (map encBone bs) @ ts"
    using in0 by (simp_all add: in1_def)
  have r2: "deserializeTopBones k (length bs + Suc m) in1 key1 = deserializeTopBones k (Suc m) in2 key2"
    unfolding in2_def key2_def using dk nf1 inp1 by (rule deserializeTopBones_enc)
  have "length ts \<le> k" "\<not> failed in2" "input in2 = ts"
    using in0 by (simp_all add: k_def inp in2_def in1_def)
  from deserializeBone_reads_negative[OF bad this, of newBone2] obtain b aIn' where
    r3: "deserializeBone k in2 newBone2 = Some (False, b, aIn')"
    and log: "errorLog aIn' = errorLog in2 @ [(logScopes in2, ''invalid child count'')]"
    by blast
  have r4: "deserializeTopBones k t in1 key1 = Some (False, aIn', key2\<lparr>mData := mData key2 @ [b]\<rparr>)"
    unfolding m r2 by (simp add: r3)
  have "deserialize aIn key = Some (False, aIn', key2\<lparr>mData := mData key2 @ [b]\<rparr>)"
    unfolding deserialize_def k_def[symmetric] deserializeWithin_def bonekey_init Let_def
    unfolding in0_def[symmetric] key1_def[symmetric] r1 prod.case
    by (simp add: r4)
  moreover have "errorLog aIn' = errorLog aIn @ [(''BoneKey'' # logScopes aIn, ''invalid child count'')]"
    using log in0 by (simp add: in2_def in1_def)
  ultimately show ?thesis by blast
qed

lemma deserialize_negative_cache_count:
  assumes nf: "\<not> failed aIn"
    and inp: "input aIn = TInt (int (length bs)) # concat (map encBone bs) @ TID i # TInt n # rest"
    and n: "n < 0"
  shows "\<exists>aIn' key'. deserialize aIn key = Some (False, aIn', key')
           \<and> errorLog aIn' = errorLog aIn @ [(''BoneKey'' # logScopes aIn, ''invalid cache count'')]"
proof -
  define k where "k = Suc (length (input aIn))"
  define in0 where "in0 = pushLogScope aIn ''BoneKey''"
  define in1 where "in1 = in0\<lparr>input := concat (map encBone bs) @ TID i # TInt n # rest\<rparr>"
  define in2 where "in2 = in1\<lparr>input := TID i # TInt n # rest\<rparr>"
  define in3 where "in3 = in2\<lparr>input := TInt n # rest, idSolvers := idSolvers in2 @ [(i, OwnerSolver)]\<rparr>"
  define in4 where "in4 = in3\<lparr>input := rest\<rparr>"
  define key1 where "key1 = key\<lparr>mData := [], mCaches := [], mCacheOwner := None\<rparr>"
  define key2 where "key2 = key1\<lparr>mData := mData key1 @ bs\<rparr>"
  have in0: "\<not> failed in0" "input in0 = input aIn" "logScopes in0 = ''BoneKey'' # logScopes aIn"
    "errorLog in0 = errorLog aIn"
    using nf by (simp_all add: in0_def pushLogScope_def)
  have r1: "readInt in0 0 = (int (length bs), in1)"
    using in0 inp by (simp add: readInt_def in1_def)
  have dk: "\<forall>c \<in> set bs. depth c \<le> k"
  proof
    fix c assume "c \<in> set bs"
    from depth_le_concat[OF this] show "depth c \<le> k" by (simp add: k_def inp)
  qed
  have nf1: "\<not> failed in1" and inp1: "input in1 = concat (map encBone bs) @ TID i # TInt n # rest"
    using in0 by (simp_all add: in1_def)
  have "deserializeTopBones k (length bs + 0) in1 key1 = deserializeTopBones k 0 in2 key2"
    unfolding in2_def key2_def using dk nf1 inp1 by (rule deserializeTopBones_enc)
  then have r2: "deserializeTopBones k (length bs) in1 key1 = Some (True, in2, key2)" by simp
  have r3: "orderIDData in2 OwnerSolver = (True, in3)"
    using in0 by (simp add: orderIDData_def in3_def in2_def in1_def)
  have r4: "readInt in3 0 = (n, in4)"
    using in0 by (simp add: readInt_def in4_def in3_def in2_def in1_def)
  have "deserialize aIn key
          = Some (False, in4\<lparr>errorLog := errorLog in4 @ [(logScopes in4, ''invalid cache count'')]\<rparr>, key2)"
    unfolding deserialize_def k_def[symmetric] deserializeWithin_def bonekey_init Let_def
    unfolding in0_def[symmetric] key1_def[symmetric] r1 prod.case
    using n by (simp add: r2 r3 r4 errored_def)
  moreover have "errorLog (in4\<lparr>errorLog := errorLog in4 @ [(logScopes in4, ''invalid cache count'')]\<rparr>)
                   = errorLog aIn @ [(''BoneKey'' # logScopes aIn, ''invalid cache count'')]"
    using in0 by (simp add: in4_def in3_def in2_def in1_def)
  ultimately show ?thesis by blast
qed

text \<open>
  C6. On a reader that has not failed, \<open>deserialize\<close> returns false and reports a
  format error under the scope "BoneKey" (on top of the scopes the reader had) in each
  of these cases: the top bone count read is negative ("invalid top bone count"); the
  child count read for a bone, a top bone after \<open>bs\<close> whole ones or any bone below it,
  is negative ("invalid child count"); the cache count read after the bones and the
  owner reference is negative ("invalid cache count").
\<close>

theorem deserialize_negative_counts:
  "\<not> failed aIn \<longrightarrow>
     (input aIn = TInt n # rest \<and> n < 0 \<longrightarrow>
        (\<exists>aIn' key'. deserialize aIn key = Some (False, aIn', key')
           \<and> errorLog aIn' = errorLog aIn @ [(''BoneKey'' # logScopes aIn, ''invalid top bone count'')]))
   \<and> (input aIn = TInt (int t) # concat (map encBone bs) @ ts \<and> length bs < t
         \<and> readsNegativeChildCount ts \<longrightarrow>
        (\<exists>aIn' key'. deserialize aIn key = Some (False, aIn', key')
           \<and> errorLog aIn' = errorLog aIn @ [(''BoneKey'' # logScopes aIn, ''invalid child count'')]))
   \<and> (input aIn = TInt (int (length bs)) # concat (map encBone bs) @ TID i # TInt n # rest \<and> n < 0 \<longrightarrow>
        (\<exists>aIn' key'. deserialize aIn key = Some (False, aIn', key')
           \<and> errorLog aIn' = errorLog aIn @ [(''BoneKey'' # logScopes aIn, ''invalid cache count'')]))"
proof (intro impI conjI; (elim conjE)?)
  assume nf: "\<not> failed aIn"
  { assume "input aIn = TInt n # rest" "n < 0"
    from deserialize_negative_top[OF nf this, of key]
    show "\<exists>aIn' key'. deserialize aIn key = Some (False, aIn', key')
           \<and> errorLog aIn' = errorLog aIn @ [(''BoneKey'' # logScopes aIn, ''invalid top bone count'')]"
      by simp }
  { assume "input aIn = TInt (int t) # concat (map encBone bs) @ ts" "length bs < t"
      "readsNegativeChildCount ts"
    from deserialize_negative_child[OF nf this]
    show "\<exists>aIn' key'. deserialize aIn key = Some (False, aIn', key')
           \<and> errorLog aIn' = errorLog aIn @ [(''BoneKey'' # logScopes aIn, ''invalid child count'')]" . }
  { assume "input aIn = TInt (int (length bs)) # concat (map encBone bs) @ TID i # TInt n # rest" "n < 0"
    from deserialize_negative_cache_count[OF nf this]
    show "\<exists>aIn' key'. deserialize aIn key = Some (False, aIn', key')
           \<and> errorLog aIn' = errorLog aIn @ [(''BoneKey'' # logScopes aIn, ''invalid cache count'')]" . }
qed












text \<open>The post-load pass fails on a reference it cannot resolve.\<close>

lemma solveIDs_unresolved:
  "(Some i, s) \<in> set sol \<Longrightarrow> resolve i = None \<Longrightarrow> \<not> fst (solveIDs resolve sol key)"
proof (induction sol arbitrary: key)
  case Nil
  then show ?case by simp
next
  case (Cons e sol)
  obtain j s' where e: "e = (j, s')" by (cases e)
  show ?case
  proof (cases j)
    case None
    with Cons e show ?thesis by auto
  next
    case (Some v)
    show ?thesis
    proof (cases "resolve v")
      case None
      with Some e show ?thesis by simp
    next
      case r: (Some node)
      with Cons Some e show ?thesis by auto
    qed
  qed
qed


lemma readInt_idSolvers: "readInt aIn v = (n, aIn') \<Longrightarrow> idSolvers aIn' = idSolvers aIn"
  by (auto simp: readInt_def split: if_splits list.splits token.splits)

lemma readMatrix_idSolvers: "readMatrix aIn v = (n, aIn') \<Longrightarrow> idSolvers aIn' = idSolvers aIn"
  by (auto simp: readMatrix_def split: if_splits list.splits token.splits)

lemma readFrame_idSolvers: "readFrame aIn v = (n, aIn') \<Longrightarrow> idSolvers aIn' = idSolvers aIn"
  by (auto simp: readFrame_def split: if_splits list.splits token.splits)

lemma Bone2_deserialize_idSolvers:
  "Bone2_deserialize aIn v = (ok, f, aIn') \<Longrightarrow> idSolvers aIn' = idSolvers aIn"
  by (auto simp: Bone2_deserialize_def split: if_splits list.splits token.splits)

lemma BoneInfluenceMap_deserialize_idSolvers:
  "BoneInfluenceMap_deserialize aIn v = (ok, f, aIn') \<Longrightarrow> idSolvers aIn' = idSolvers aIn"
  by (auto simp: BoneInfluenceMap_deserialize_def split: if_splits list.splits token.splits)

lemma errored_idSolvers: "errored aIn msg = (r, aIn') \<Longrightarrow> idSolvers aIn' = idSolvers aIn"
  by (auto simp: errored_def)

lemma orderIDData_idSolvers:
  "orderIDData aIn s = (ok, aIn') \<Longrightarrow>
     (if ok then \<exists>i. idSolvers aIn' = idSolvers aIn @ [(i, s)] else idSolvers aIn' = idSolvers aIn)"
  by (auto simp: orderIDData_def split: if_splits list.splits token.splits)

lemma deserializeBone_idSolvers:
  "deserializeBone k aIn b = Some (ok, b', aIn') \<Longrightarrow> idSolvers aIn' = idSolvers aIn"
  "deserializeChildren k n aIn b = Some (ok, b', aIn') \<Longrightarrow> idSolvers aIn' = idSolvers aIn"
proof (induction k aIn b and k n aIn b arbitrary: ok b' aIn' and ok b' aIn'
        rule: deserializeBone_deserializeChildren.induct)
  case (1 aIn aBone)
  then show ?case by simp
next
  case (2 k aIn aBone)
  obtain c in1 where r1: "readInt aIn 0 = (c, in1)" by (cases "readInt aIn 0")
  note i1 = readInt_idSolvers[OF r1]
  show ?case
  proof (cases "c < 0")
    case True
    with "2.prems" r1 i1 show ?thesis by (auto simp: errored_def)
  next
    case False
    obtain ok2 f in2 where r2: "Bone2_deserialize in1 (bfields aBone) = (ok2, f, in2)"
      by (cases "Bone2_deserialize in1 (bfields aBone)")
    note i2 = Bone2_deserialize_idSolvers[OF r2]
    show ?thesis
    proof (cases ok2)
      case False
      with "2.prems" r1 r2 \<open>\<not> c < 0\<close> i1 i2 show ?thesis by auto
    next
      case True
      with "2.prems" r1 r2 \<open>\<not> c < 0\<close> obtain ok3 b3 in3 where
        r3: "deserializeChildren k (nat c) in2 (Bone2 f (bchildren aBone)) = Some (ok3, b3, in3)"
        and fin: "aIn' = in3"
        by (auto split: option.splits bool.splits)
      have t: "ok2 = True" using True by simp
      from "2.IH"[OF r1[symmetric] \<open>\<not> c < 0\<close> r2[symmetric] t refl r3]
      have "idSolvers in3 = idSolvers in2" .
      with fin i1 i2 show ?thesis by simp
    qed
  qed
next
  case (3 k aIn aBone)
  then show ?case by simp
next
  case (4 k n aIn aBone)
  from "4.prems" obtain ok1 child in1 where
    r1: "deserializeBone k aIn newBone2 = Some (ok1, child, in1)"
    by (auto split: option.splits)
  note i1 = "4.IH"(1)[OF r1]
  show ?case
  proof (cases ok1)
    case False
    with "4.prems" r1 i1 show ?thesis by (auto simp: Let_def)
  next
    case True
    with "4.prems" r1 have
      r2: "deserializeChildren k n in1 (Bone2 (bfields aBone) (bchildren aBone @ [child]))
             = Some (ok, b', aIn')"
      by (simp add: Let_def)
    have nn: "\<not> \<not> ok1" using True by simp
    from "4.IH"(2)[OF r1 refl refl refl nn r2] i1 show ?thesis by simp
  qed
qed

lemma deserializeTopBones_frame:
  "deserializeTopBones k n aIn key = Some (ok, aIn', key') \<Longrightarrow>
     idSolvers aIn' = idSolvers aIn \<and> mCaches key' = mCaches key \<and> heapNext key' = heapNext key"
proof (induction n arbitrary: aIn key)
  case 0
  then show ?case by simp
next
  case (Suc n)
  from Suc.prems obtain ok1 b in1 where
    r1: "deserializeBone k aIn newBone2 = Some (ok1, b, in1)"
    by (auto split: option.splits)
  note i1 = deserializeBone_idSolvers(1)[OF r1]
  show ?case
  proof (cases ok1)
    case False
    with Suc.prems r1 i1 show ?thesis by (auto simp: Let_def)
  next
    case True
    with Suc.prems r1 have "deserializeTopBones k n in1 (key\<lparr>mData := mData key @ [b]\<rparr>)
                              = Some (ok, aIn', key')"
      by (simp add: Let_def)
    from Suc.IH[OF this] i1 show ?thesis by simp
  qed
qed

lemma solverOf_pair [simp]: "solverOf (p, c) = CacheSolver p"
  by (simp add: solverOf_def)

lemma pendingCaches_Nil: "pendingCaches h [] []"
  by (simp add: pendingCaches_def)

lemma pendingCaches_single: "mNode c = None \<Longrightarrow> pendingCaches h [] [(h, c)]"
  unfolding pendingCaches_def by (intro exI[of _ "[]"]) simp

lemma pendingCaches_single': "mNode c = None \<Longrightarrow> pendingCaches h [(i, CacheSolver h)] [(h, c)]"
  unfolding pendingCaches_def by (intro exI[of _ "[i]"]) simp

lemma pendingCaches_Cons:
  assumes "mNode c = None" and "pendingCaches (Suc h) sol new"
  shows "pendingCaches h ((i, CacheSolver h) # sol) ((h, c) # new)"
proof -
  from assms(2) obtain ids where s: "sol = zip ids (map solverOf new)"
    and a: "map fst new = [Suc h ..< Suc h + length new]"
    and n: "\<forall>pc \<in> set new. mNode (snd pc) = None"
    by (auto simp: pendingCaches_def)
  have "map fst ((h, c) # new) = [h ..< h + length ((h, c) # new)]"
    using a by (simp add: upt_conv_Cons del: upt_Suc)
  with s n assms(1) show ?thesis
    unfolding pendingCaches_def by (intro exI[of _ "i # ids"]) simp
qed

lemma deserializeCaches_shape:
  "deserializeCaches n aIn key = (ok, aIn', key') \<Longrightarrow>
     \<exists>sol new. idSolvers aIn' = idSolvers aIn @ sol \<and> mCaches key' = mCaches key @ new
        \<and> pendingCaches (heapNext key) sol new"
proof (induction n arbitrary: aIn key)
  case 0
  then show ?case by (auto simp: pendingCaches_Nil)
next
  case (Suc n)
  define p where "p = heapNext key"
  obtain ok1 in1 where r1: "orderIDData aIn (CacheSolver p) = (ok1, in1)"
    by (cases "orderIDData aIn (CacheSolver p)")
  note i1 = orderIDData_idSolvers[OF r1]
  show ?case
  proof (cases ok1)
    case False
    with Suc.prems r1 i1 have "idSolvers aIn' = idSolvers aIn @ []"
      and "mCaches key' = mCaches key @ [(p, Cache)]"
      by (auto simp: Let_def p_def[symmetric] errored_def)
    moreover have "pendingCaches p [] [(p, Cache)]"
      by (rule pendingCaches_single) (simp add: Cache_def)
    ultimately show ?thesis unfolding p_def by blast
  next
    case True
    with i1 obtain i where s1: "idSolvers in1 = idSolvers aIn @ [(i, CacheSolver p)]" by auto
    obtain mtx in2 where r2: "readMatrix in1 (Matrix4 0) = (mtx, in2)"
      by (cases "readMatrix in1 (Matrix4 0)")
    obtain sign in3 where r3: "readFrame in2 0 = (sign, in3)" by (cases "readFrame in2 0")
    define cache1 where "cache1 = Cache\<lparr>mInnerMtx := mtx, mFrameSign := sign\<rparr>"
    obtain ok4 m in4 where r4: "BoneInfluenceMap_deserialize in3 (mInfluence Cache) = (ok4, m, in4)"
      by (cases "BoneInfluenceMap_deserialize in3 (mInfluence Cache)")
    define c where "c = cache1\<lparr>mInfluence := m\<rparr>"
    have cn: "mNode c = None" by (simp add: c_def cache1_def Cache_def)
    have s4: "idSolvers in4 = idSolvers aIn @ [(i, CacheSolver p)]"
      using s1 readMatrix_idSolvers[OF r2] readFrame_idSolvers[OF r3]
        BoneInfluenceMap_deserialize_idSolvers[OF r4] by simp
    define key1 where "key1 = key\<lparr>heapNext := Suc p, mCaches := mCaches key @ [(p, c)]\<rparr>"
    show ?thesis
    proof (cases ok4)
      case False
      with Suc.prems r1 True r2 r3 r4 have "aIn' = in4" and "mCaches key' = mCaches key @ [(p, c)]"
        by (auto simp: Let_def p_def[symmetric] c_def cache1_def)
      moreover have "pendingCaches p [(i, CacheSolver p)] [(p, c)]"
        using cn by (rule pendingCaches_single')
      ultimately show ?thesis using s4 unfolding p_def by blast
    next
      case ok: True
      with Suc.prems r1 True r2 r3 r4 have "deserializeCaches n in4 key1 = (ok, aIn', key')"
        by (simp add: Let_def p_def[symmetric] c_def cache1_def key1_def)
      from Suc.IH[OF this] obtain sol new where
        a: "idSolvers aIn' = idSolvers in4 @ sol" and b: "mCaches key' = mCaches key1 @ new"
        and pc: "pendingCaches (heapNext key1) sol new" by blast
      have "idSolvers aIn' = idSolvers aIn @ (i, CacheSolver p) # sol" using a s4 by simp
      moreover have "mCaches key' = mCaches key @ (p, c) # new" using b by (simp add: key1_def)
      moreover have "pendingCaches p ((i, CacheSolver p) # sol) ((p, c) # new)"
        using cn pc by (intro pendingCaches_Cons) (simp_all add: key1_def)
      ultimately show ?thesis unfolding p_def by blast
    qed
  qed
qed

lemma deserialize_shape:
  assumes "deserialize aIn key = Some (ok, aIn', key')"
  shows "\<exists>own sol. idSolvers aIn' = idSolvers aIn @ own @ sol
           \<and> (own = [] \<or> (\<exists>i. own = [(i, OwnerSolver)]))
           \<and> pendingCaches (heapNext key) sol (mCaches key')"
proof -
  define k where "k = Suc (length (input aIn))"
  define in0 where "in0 = pushLogScope aIn ''BoneKey''"
  define key1 where "key1 = key\<lparr>mData := [], mCaches := [], mCacheOwner := None\<rparr>"
  have s0: "idSolvers in0 = idSolvers aIn" by (simp add: in0_def pushLogScope_def)
  obtain t in1 where r1: "readInt in0 0 = (t, in1)" by (cases "readInt in0 0")
  have s1: "idSolvers in1 = idSolvers aIn" using readInt_idSolvers[OF r1] s0 by simp
  have run: "(if t < 0
              then (case errored in1 ''invalid top bone count'' of
                      (r, in2) \<Rightarrow> Some (r, in2, key1))
              else
                (case deserializeTopBones k (nat t) in1 key1 of
                   None \<Rightarrow> None
                 | Some (False, in2, key2) \<Rightarrow> Some (False, in2, key2)
                 | Some (True, in2, key2) \<Rightarrow>
                     (case orderIDData in2 OwnerSolver of
                        (False, in3) \<Rightarrow>
                          (case errored in3 ''invalid cache owner reference id'' of
                             (r, in4) \<Rightarrow> Some (r, in4, key2))
                      | (True, in3) \<Rightarrow>
                          (case readInt in3 0 of
                             (cacheCount, in4) \<Rightarrow>
                               if cacheCount < 0
                               then (case errored in4 ''invalid cache count'' of
                                       (r, in5) \<Rightarrow> Some (r, in5, key2))
                               else
                                 (case deserializeCaches (nat cacheCount) in4 key2 of
                                    (False, in5, key3) \<Rightarrow> Some (False, in5, key3)
                                  | (True, in5, key3) \<Rightarrow>
                                      Some (checkStream (popLogScope in5), popLogScope in5, key3))))))
             = Some (ok, aIn', key')"
    using assms
    unfolding deserialize_def k_def[symmetric] deserializeWithin_def bonekey_init Let_def
    unfolding in0_def[symmetric] key1_def[symmetric] r1 prod.case .
  have empty: "pendingCaches (heapNext key) [] (mCaches key1)"
    by (simp add: key1_def pendingCaches_Nil)
  show ?thesis
  proof (cases "t < 0")
    case True
    with run have "idSolvers aIn' = idSolvers in1" "key' = key1"
      by (auto simp: errored_def)
    with s1 empty show ?thesis by auto
  next
    case nonneg: False
    with run obtain ok2 in2 key2 where
      r2: "deserializeTopBones k (nat t) in1 key1 = Some (ok2, in2, key2)"
      by (auto split: option.splits)
    from deserializeTopBones_frame[OF r2] s1
    have s2: "idSolvers in2 = idSolvers aIn" and c2: "mCaches key2 = []"
      and h2: "heapNext key2 = heapNext key"
      by (simp_all add: key1_def)
    have empty2: "pendingCaches (heapNext key) [] (mCaches key2)"
      by (simp add: c2 pendingCaches_Nil)
    show ?thesis
    proof (cases ok2)
      case False
      with run nonneg r2 have "aIn' = in2" "key' = key2" by simp_all
      with s2 empty2 show ?thesis by auto
    next
      case ok2: True
      obtain ok3 in3 where r3: "orderIDData in2 OwnerSolver = (ok3, in3)"
        by (cases "orderIDData in2 OwnerSolver")
      note i3 = orderIDData_idSolvers[OF r3]
      show ?thesis
      proof (cases ok3)
        case False
        with run nonneg r2 ok2 r3 i3 have "idSolvers aIn' = idSolvers in2" "key' = key2"
          by (auto simp: errored_def)
        with s2 empty2 show ?thesis by auto
      next
        case ok3: True
        with i3 s2 obtain i where s3: "idSolvers in3 = idSolvers aIn @ [(i, OwnerSolver)]" by auto
        obtain n in4 where r4: "readInt in3 0 = (n, in4)" by (cases "readInt in3 0")
        have s4: "idSolvers in4 = idSolvers aIn @ [(i, OwnerSolver)]"
          using readInt_idSolvers[OF r4] s3 by simp
        show ?thesis
        proof (cases "n < 0")
          case True
          with run nonneg r2 ok2 r3 ok3 r4 have "idSolvers aIn' = idSolvers in4" "key' = key2"
            by (auto simp: errored_def)
          with s4 empty2 have "idSolvers aIn' = idSolvers aIn @ [(i, OwnerSolver)] @ []"
            and "pendingCaches (heapNext key) [] (mCaches key')" by simp_all
          then show ?thesis by blast
        next
          case False
          obtain ok5 in5 key3 where r5: "deserializeCaches (nat n) in4 key2 = (ok5, in5, key3)"
            by (cases "deserializeCaches (nat n) in4 key2")
          from deserializeCaches_shape[OF r5] c2 h2 s4 obtain sol where
            s5: "idSolvers in5 = idSolvers aIn @ [(i, OwnerSolver)] @ sol"
            and p5: "pendingCaches (heapNext key) sol (mCaches key3)"
            by auto
          from run nonneg r2 ok2 r3 ok3 r4 False r5
          have "idSolvers aIn' = idSolvers in5" "key' = key3"
            by (auto simp: popLogScope_def split: bool.splits)
          with s5 p5 show ?thesis
            by (intro exI[of _ "[(i, OwnerSolver)]"] exI[of _ sol]) simp
        qed
      qed
    qed
  qed
qed

lemma boundNodes_append: "boundNodes (xs @ ys) = boundNodes xs @ boundNodes ys"
  by (simp add: boundNodes_def)

lemma boundNodes_unbound: "\<forall>pc \<in> set cs. mNode (snd pc) = None \<Longrightarrow> boundNodes cs = []"
  by (induction cs) (auto simp: boundNodes_def)

lemma solveIDs_caches_bound:
  "distinct (map fst new) \<Longrightarrow> \<forall>pc \<in> set new. mNode (snd pc) = None \<Longrightarrow>
   fst ` set new \<inter> fst ` set pre = {} \<Longrightarrow>
   solveIDs resolve (zip ids (map solverOf new)) (key\<lparr>mCaches := pre @ new\<rparr>) = (ok, key2) \<Longrightarrow>
   \<exists>ys zs. cacheRefs resolve (zip ids (map solverOf new)) = ys @ zs
     \<and> boundNodes (mCaches key2) = boundNodes pre @ ys"
proof (induction new arbitrary: ids pre key)
  case Nil
  then show ?case by (auto simp: cacheRefs_def)
next
  case (Cons ac new)
  obtain a c where ac: "ac = (a, c)" by (cases ac)
  from Cons.prems ac have d: "distinct (map fst new)" and nn: "\<forall>pc \<in> set new. mNode (snd pc) = None"
    and cn: "mNode c = None" and fr: "a \<notin> fst ` set pre" and a: "a \<notin> fst ` set new"
    and dj0: "fst ` set new \<inter> fst ` set pre = {}"
    by auto
  have unb: "boundNodes (pre @ (a, c) # new) = boundNodes pre"
    using nn cn by (simp add: boundNodes_append boundNodes_unbound)
  show ?case
  proof (cases ids)
    case Nil
    with Cons.prems ac unb show ?thesis by (auto simp: cacheRefs_def)
  next
    case (Cons i ids')
    note ids = this
    show ?thesis
    proof (cases i)
      case None
      have dj: "fst ` set new \<inter> fst ` set (pre @ [(a, c)]) = {}" using dj0 a by auto
      from Cons.prems(4) have "solveIDs resolve (zip ids' (map solverOf new))
               (key\<lparr>mCaches := (pre @ [(a, c)]) @ new\<rparr>) = (ok, key2)"
        by (simp add: ids ac None)
      from Cons.IH[OF d nn dj this] obtain ys zs where
        "cacheRefs resolve (zip ids' (map solverOf new)) = ys @ zs"
        "boundNodes (mCaches key2) = boundNodes (pre @ [(a, c)]) @ ys" by blast
      moreover have "boundNodes (pre @ [(a, c)]) = boundNodes pre"
        using cn by (simp add: boundNodes_append boundNodes_def)
      moreover have "cacheRefs resolve (zip ids (map solverOf (ac # new)))
                       = cacheRefs resolve (zip ids' (map solverOf new))"
        by (simp add: ids ac None cacheRefs_def)
      ultimately show ?thesis by auto
    next
      case (Some v)
      show ?thesis
      proof (cases "resolve v")
        case None
        with Cons.prems(4) have "key2 = key\<lparr>mCaches := pre @ (a, c) # new\<rparr>"
          by (simp add: ids ac Some)
        with unb have "boundNodes (mCaches key2) = boundNodes pre @ []" by simp
        then show ?thesis by blast
      next
        case (Some n)
        have dj: "fst ` set new \<inter> fst ` set (pre @ [(a, setNode c n)]) = {}" using dj0 a by auto
        have ap: "applySolver (CacheSolver a) (Some n) (key\<lparr>mCaches := pre @ (a, c) # new\<rparr>)
                    = key\<lparr>mCaches := (pre @ [(a, setNode c n)]) @ new\<rparr>"
          by (simp add: map_of_append_fresh[OF fr] setCache_append_fresh[OF fr] del: map_of_append)
        from Cons.prems(4) have "solveIDs resolve (zip ids' (map solverOf new))
               (key\<lparr>mCaches := (pre @ [(a, setNode c n)]) @ new\<rparr>) = (ok, key2)"
          unfolding ids ac using \<open>i = Some v\<close> Some ap by simp
        from Cons.IH[OF d nn dj this] obtain ys zs where
          1: "cacheRefs resolve (zip ids' (map solverOf new)) = ys @ zs"
          and 2: "boundNodes (mCaches key2) = boundNodes (pre @ [(a, setNode c n)]) @ ys" by blast
        have 3: "boundNodes (pre @ [(a, setNode c n)]) = boundNodes pre @ [n]"
          by (simp add: boundNodes_append boundNodes_def setNode_def)
        have 4: "cacheRefs resolve (zip ids (map solverOf (ac # new)))
                       = n # cacheRefs resolve (zip ids' (map solverOf new))"
          using \<open>i = Some v\<close> Some by (simp add: ids ac cacheRefs_def)
        have "cacheRefs resolve (zip ids (map solverOf (ac # new))) = (n # ys) @ zs"
          and "boundNodes (mCaches key2) = boundNodes pre @ (n # ys)"
          using 1 2 3 4 by simp_all
        then show ?thesis by blast
      qed
    qed
  qed
qed

lemma cacheRefs_append: "cacheRefs resolve (xs @ ys) = cacheRefs resolve xs @ cacheRefs resolve ys"
  by (simp add: cacheRefs_def)

lemma cacheRefs_owner: "cacheRefs resolve ((i, OwnerSolver) # sol) = cacheRefs resolve sol"
  by (simp add: cacheRefs_def)

lemma upt_fst_distinct: "map fst new = [h ..< h + length new] \<Longrightarrow> distinct (map fst new)"
  by (metis distinct_upt)

lemma deserialize_solveIDs_oneCachePerNode:
  assumes des: "deserialize (reader ts) key = Some (ok, aIn', key1)"
    and sol: "solveIDs resolve (idSolvers aIn') key1 = (ok', key2)"
    and dist: "distinct (cacheRefs resolve (idSolvers aIn'))"
  shows "oneCachePerNode (mCaches key2)"
proof -
  from deserialize_shape[OF des] obtain own sl where
    ids: "idSolvers aIn' = own @ sl"
    and own: "own = [] \<or> (\<exists>i. own = [(i, OwnerSolver)])"
    and pc: "pendingCaches (heapNext key) sl (mCaches key1)"
    by (auto simp: reader_def)
  from pc obtain ids' where sl: "sl = zip ids' (map solverOf (mCaches key1))"
    and addr: "map fst (mCaches key1) = [heapNext key ..< heapNext key + length (mCaches key1)]"
    and nn: "\<forall>pc \<in> set (mCaches key1). mNode (snd pc) = None"
    by (auto simp: pendingCaches_def)
  have d: "distinct (map fst (mCaches key1))" using addr by (rule upt_fst_distinct)
  have refs: "cacheRefs resolve (idSolvers aIn') = cacheRefs resolve sl"
    using own by (auto simp: ids cacheRefs_append cacheRefs_owner cacheRefs_def)
  have caches: "distinct (boundNodes (mCaches k2))"
    if "solveIDs resolve sl (k\<lparr>mCaches := [] @ mCaches key1\<rparr>) = (o2, k2)" for k k2 o2
  proof -
    from solveIDs_caches_bound[OF d nn _ that[unfolded sl]] obtain ys zs where
      "cacheRefs resolve sl = ys @ zs" "boundNodes (mCaches k2) = boundNodes [] @ ys"
      unfolding sl by auto
    with dist refs show ?thesis by (simp add: boundNodes_def)
  qed
  have unb: "distinct (boundNodes (mCaches key1))" using boundNodes_unbound[OF nn] by simp
  from own show ?thesis
  proof
    assume "own = []"
    with sol ids have "solveIDs resolve sl (key1\<lparr>mCaches := [] @ mCaches key1\<rparr>) = (ok', key2)"
      by simp
    from caches[OF this] show ?thesis by (simp add: oneCachePerNode_def)
  next
    assume "\<exists>i. own = [(i, OwnerSolver)]"
    then obtain i where o: "own = [(i, OwnerSolver)]" by blast
    show ?thesis
    proof (cases i)
      case None
      with sol ids o have "solveIDs resolve sl (key1\<lparr>mCaches := [] @ mCaches key1\<rparr>) = (ok', key2)"
        by simp
      from caches[OF this] show ?thesis by (simp add: oneCachePerNode_def)
    next
      case (Some v)
      show ?thesis
      proof (cases "resolve v")
        case None
        with sol ids o Some have "key2 = key1" by simp
        with unb show ?thesis by (simp add: oneCachePerNode_def)
      next
        case (Some n)
        with sol ids o \<open>i = Some v\<close>
        have "solveIDs resolve sl ((key1\<lparr>mCacheOwner := Some n\<rparr>)\<lparr>mCaches := [] @ mCaches key1\<rparr>)
                = (ok', key2)"
          by (cases key1) simp
        from caches[OF this] show ?thesis by (simp add: oneCachePerNode_def)
      qed
    qed
  qed
qed

lemma boundNodes_cacheNodes:
  "boundNodes cs = concat (map (\<lambda>x. case x of None \<Rightarrow> [] | Some n \<Rightarrow> [n]) (cacheNodes cs))"
  by (simp add: boundNodes_def cacheNodes_def comp_def)

lemma boundNodes_Some: "cacheNodes cs = map Some ns \<Longrightarrow> boundNodes cs = ns"
  by (simp add: boundNodes_cacheNodes comp_def)

lemma boundNodes_Cons:
  "boundNodes ((p, c) # cs) = (case mNode c of None \<Rightarrow> [] | Some n \<Rightarrow> [n]) @ boundNodes cs"
  by (simp add: boundNodes_def)

lemma popCacheIn_subset:
  "set (boundNodes (snd (popCacheIn cs n))) \<subseteq> set (boundNodes cs)"
proof (induction cs)
  case Nil
  then show ?case by simp
next
  case (Cons pc cs)
  obtain p c where pc: "pc = (p, c)" by (cases pc)
  obtain r cs' where pop: "popCacheIn cs n = (r, cs')" by (cases "popCacheIn cs n")
  with Cons.IH have "set (boundNodes cs') \<subseteq> set (boundNodes cs)" by simp
  then show ?case
    by (auto simp: pc pop boundNodes_Cons split: option.splits)
qed

lemma popCacheIn_distinct:
  "distinct (boundNodes cs) \<Longrightarrow> distinct (boundNodes (snd (popCacheIn cs n)))"
proof (induction cs)
  case Nil
  then show ?case by simp
next
  case (Cons pc cs)
  obtain p c where pc: "pc = (p, c)" by (cases pc)
  obtain r cs' where pop: "popCacheIn cs n = (r, cs')" by (cases "popCacheIn cs n")
  from popCacheIn_subset[of cs n] pop
  have sub: "set (boundNodes cs') \<subseteq> set (boundNodes cs)" by simp
  from Cons.prems have d: "distinct (boundNodes cs)"
    by (auto simp: pc boundNodes_Cons split: option.splits)
  from Cons.IH[OF d] pop have d': "distinct (boundNodes cs')" by simp
  show ?case
  proof (cases "mNode c")
    case None
    with d' show ?thesis by (simp add: pc pop boundNodes_Cons)
  next
    case (Some m)
    with Cons.prems have "m \<notin> set (boundNodes cs)" by (simp add: pc boundNodes_Cons)
    with sub have "m \<notin> set (boundNodes cs')" by blast
    with d d' Some show ?thesis by (simp add: pc pop boundNodes_Cons)
  qed
qed

text \<open>
  C9, as amended. \<open>resetCaches\<close> on a scene tree (no node occurs twice) and
  \<open>destroyCaches\<close> leave a collection with at most one cache per node; the targeted
  \<open>updateCaches\<close> and \<open>popCache\<close> keep that property; \<open>deserialize\<close> followed by the
  post-load pass gives it when the node references filed for the caches resolve to
  pairwise distinct nodes.
\<close>

theorem cache_collection_invariant:
  "(distinct (map nid (iterate aOwner)) \<and> resetCaches prj aOwner key = Inr (prj', key')
      \<longrightarrow> oneCachePerNode (mCaches key'))
   \<and> (oneCachePerNode (mCaches key) \<and> updateCachesRoots prj aOwner roots key = Inr (prj', key')
      \<longrightarrow> oneCachePerNode (mCaches key'))
   \<and> (oneCachePerNode (mCaches key) \<longrightarrow> oneCachePerNode (mCaches (snd (popCache key n))))
   \<and> oneCachePerNode (mCaches (destroyCaches key))
   \<and> (deserialize (reader ts) key = Some (ok, aIn', decoded)
        \<and> solveIDs resolve (idSolvers aIn') decoded = (ok', resolved)
        \<and> distinct (cacheRefs resolve (idSolvers aIn'))
      \<longrightarrow> oneCachePerNode (mCaches resolved))"
proof (intro conjI impI)
  assume a: "distinct (map nid (iterate aOwner)) \<and> resetCaches prj aOwner key = Inr (prj', key')"
  from resetCaches_result[of prj aOwner key] a
  have "cacheNodes (mCaches key')
          = map Some (filter (hasAreaMesh prj (keyFrame key)) (map nid (iterate aOwner)))"
    by auto
  from boundNodes_Some[OF this] a show "oneCachePerNode (mCaches key')"
    by (simp add: oneCachePerNode_def)
next
  assume a: "oneCachePerNode (mCaches key) \<and> updateCachesRoots prj aOwner roots key = Inr (prj', key')"
  then have "updateCaches prj (collectRoots key aOwner roots [])
               (key\<lparr>mCacheOwner := Some (nid aOwner)\<rparr>) = Inr (prj', key')"
    by (simp add: updateCachesRoots_def Let_def split: if_splits)
  from updateCaches_frame[OF this] have "cacheNodes (mCaches key') = cacheNodes (mCaches key)"
    by simp
  with a show "oneCachePerNode (mCaches key')"
    by (simp add: oneCachePerNode_def boundNodes_cacheNodes)
next
  assume "oneCachePerNode (mCaches key)"
  then show "oneCachePerNode (mCaches (snd (popCache key n)))"
    using popCacheIn_distinct[of "mCaches key" n]
    by (cases "popCacheIn (mCaches key) n") (simp add: oneCachePerNode_def popCache_def)
next
  show "oneCachePerNode (mCaches (destroyCaches key))"
    by (simp add: oneCachePerNode_def destroyCaches_def boundNodes_def)
next
  assume "deserialize (reader ts) key = Some (ok, aIn', decoded)
        \<and> solveIDs resolve (idSolvers aIn') decoded = (ok', resolved)
        \<and> distinct (cacheRefs resolve (idSolvers aIn'))"
  then show "oneCachePerNode (mCaches resolved)"
    using deserialize_solveIDs_oneCachePerNode by blast
qed

text \<open>The equations that evaluate a decode on a concrete stream.\<close>

lemmas decode_simps =
  deserialize_def deserializeWithin_def reader_def pushLogScope_def popLogScope_def readInt_def
  readMatrix_def readFrame_def orderIDData_def BoneInfluenceMap_deserialize_def errored_def
  checkStream_def bonekey_init Let_def eval_nat_numeral

text \<open>
  Witness for C2: the key with two caches, decoded into the key of the small scene.
\<close>

theorem serialize_deserialize_roundtrip_witness:
  "\<exists>ts key'. serialize exKey3 [] = (True, ts) \<and> load exResolve ts exKey = Some (True, key')
      \<and> mData key' = [Bone2 (BoneFields 1) [Bone2 (BoneFields 2) []]]
      \<and> length (mCaches key') = 2
      \<and> map snd (mCaches key') = map snd (mCaches exKey3)
      \<and> mCacheOwner key' = Some 0"
proof -
  have "\<forall>n. mCacheOwner exKey3 = Some n \<or> Some n \<in> set (cacheNodes (mCaches exKey3))
            \<longrightarrow> exResolve n = Some n"
    by (auto simp: exKey3_def exKey1_def exKey_def cacheNodes_def setNode_def exResolve_def)
  from serialize_deserialize_roundtrip[OF this, of exKey] obtain ts key' where
    s: "serialize exKey3 [] = (True, ts)" and l: "load exResolve ts exKey = Some (True, key')"
    and m: "mData key' = mData exKey3" and n: "length (mCaches key') = length (mCaches exKey3)"
    and c: "map snd (mCaches key') = map snd (mCaches exKey3)"
    and ow: "mCacheOwner key' = mCacheOwner exKey3"
    by blast
  have "mData exKey3 = [Bone2 (BoneFields 1) [Bone2 (BoneFields 2) []]]"
    and "length (mCaches exKey3) = 2" and "mCacheOwner exKey3 = Some 0"
    by (simp_all add: exKey3_def exKey1_def exKey_def)
  with s l m n c ow show ?thesis
    by (intro exI[of _ ts] exI[of _ key']) simp
qed

text \<open>
  Witness for C6: one stream for each of the three counts.
\<close>

theorem deserialize_negative_counts_witness:
  "(\<exists>aIn' key'. deserialize (reader [TInt (- 1)]) exKey = Some (False, aIn', key')
       \<and> errorLog aIn' = [([''BoneKey''], ''invalid top bone count'')])
   \<and> (\<exists>aIn' key'. deserialize (reader [TInt 1, TInt 1, TBone (BoneFields 5), TInt (- 3)]) exKey
                       = Some (False, aIn', key')
       \<and> errorLog aIn' = [([''BoneKey''], ''invalid child count'')])
   \<and> (\<exists>aIn' key'. deserialize (reader [TInt 0, TID None, TInt (- 2)]) exKey = Some (False, aIn', key')
       \<and> errorLog aIn' = [([''BoneKey''], ''invalid cache count'')])"
proof -
  have bad: "readsNegativeChildCount [TInt 1, TBone (BoneFields 5), TInt (- 3)]"
    using readsNegativeChildCount.below[of "[]" 1 "[TInt (- 3)]" "BoneFields 5"]
      readsNegativeChildCount.here[of "- 3" "[]"]
    by simp
  have 1: "\<exists>aIn' key'. deserialize (reader [TInt (- 1)]) exKey = Some (False, aIn', key')
       \<and> errorLog aIn' = [([''BoneKey''], ''invalid top bone count'')]"
    using deserialize_negative_counts[where aIn = "reader [TInt (- 1)]" and n = "- 1" and rest = "[]"
        and key = exKey]
    by (simp add: reader_def)
  have 2: "\<exists>aIn' key'. deserialize (reader [TInt 1, TInt 1, TBone (BoneFields 5), TInt (- 3)]) exKey
                       = Some (False, aIn', key')
       \<and> errorLog aIn' = [([''BoneKey''], ''invalid child count'')]"
    using deserialize_negative_counts[where aIn = "reader [TInt 1, TInt 1, TBone (BoneFields 5), TInt (- 3)]"
        and t = 1 and bs = "[]" and ts = "[TInt 1, TBone (BoneFields 5), TInt (- 3)]" and key = exKey]
      bad
    by (simp add: reader_def)
  have 3: "\<exists>aIn' key'. deserialize (reader [TInt 0, TID None, TInt (- 2)]) exKey = Some (False, aIn', key')
       \<and> errorLog aIn' = [([''BoneKey''], ''invalid cache count'')]"
    using deserialize_negative_counts[where aIn = "reader [TInt 0, TID None, TInt (- 2)]"
        and bs = "[]" and i = None and n = "- 2" and rest = "[]" and key = exKey]
    by (simp add: reader_def)
  from 1 2 3 show ?thesis by blast
qed



lemma load_exStreamDup:
  "load Some exStreamDup exKey
     = Some (True, exKey\<lparr>mData := [], mCaches := [(1, setNode Cache 5), (2, setNode Cache 5)],
                          mCacheOwner := None, heapNext := 3\<rparr>)"
  by (simp add: load_def decode_simps exStreamDup_def exKey_def setNode_def Cache_def)

text \<open>
  Counterexample for C9 as stated: a stream with two cache records that refer to the
  same node decodes, and both caches are bound to that node.
\<close>

theorem deserialize_duplicate_node_counterexample:
  "\<exists>key'. load Some exStreamDup exKey = Some (True, key') \<and> \<not> oneCachePerNode (mCaches key')"
  unfolding load_exStreamDup
  by (simp add: oneCachePerNode_def boundNodes_def setNode_def)

lemma deserialize_exStream:
  "deserialize (reader exStream) exKey
     = Some (True,
         \<lparr>input = [], failed = False, logScopes = [], errorLog = [],
          idSolvers = [(Some 0, OwnerSolver), (Some 1, CacheSolver 1), (Some 3, CacheSolver 2)]\<rparr>,
         exKey\<lparr>mData := [],
               mCaches := [(1, Cache\<lparr>mInnerMtx := Matrix4 2, mFrameSign := 7\<rparr>), (2, Cache)],
               mCacheOwner := None, heapNext := 3\<rparr>)"
  by (simp add: decode_simps exStream_def exKey_def Cache_def)

lemma solveIDs_exStream:
  "solveIDs exResolve [(Some 0, OwnerSolver), (Some 1, CacheSolver 1), (Some 3, CacheSolver 2)]
       (exKey\<lparr>mData := [],
               mCaches := [(1, Cache\<lparr>mInnerMtx := Matrix4 2, mFrameSign := 7\<rparr>), (2, Cache)],
               mCacheOwner := None, heapNext := 3\<rparr>)
     = (True, exKey\<lparr>mData := [],
               mCaches := [(1, Cache\<lparr>mInnerMtx := Matrix4 2, mFrameSign := 7, mNode := Some 1\<rparr>),
                           (2, Cache\<lparr>mNode := Some 3\<rparr>)],
               mCacheOwner := Some 0, heapNext := 3\<rparr>)"
  by (simp add: exResolve_def exKey_def setNode_def Cache_def)

text \<open>
  Witness for C9 as amended: the rebuild of the small scene, a pop from its result, and
  the decode of a stream whose cache records refer to the nodes 1 and 3.
\<close>

theorem cache_collection_invariant_witness:
  "oneCachePerNode (mCaches exKey1)
   \<and> oneCachePerNode (mCaches (snd (popCache exKey1 1)))
   \<and> oneCachePerNode
        [(1, Cache\<lparr>mInnerMtx := Matrix4 2, mFrameSign := 7, mNode := Some 1\<rparr>),
         (2::nat, Cache\<lparr>mNode := Some 3\<rparr>)]"
proof -
  have d: "distinct (map nid (iterate exTree))" by (simp add: exTree_iterate exTree_def)
  have r: "distinct (cacheRefs exResolve
             [(Some 0, OwnerSolver), (Some 1, CacheSolver 1), (Some 3, CacheSolver 2)])"
    by (simp add: cacheRefs_def exResolve_def)
  note t = cache_collection_invariant[where aOwner = exTree and prj = exProject and key = exKey
      and prj' = exProject1 and key' = exKey1 and ts = exStream and resolve = exResolve
      and ok = True and ok' = True
      and aIn' = "\<lparr>input = [], failed = False, logScopes = [], errorLog = [],
          idSolvers = [(Some 0, OwnerSolver), (Some 1, CacheSolver 1), (Some 3, CacheSolver 2)]\<rparr>"
      and decoded = "exKey\<lparr>mData := [],
               mCaches := [(1, Cache\<lparr>mInnerMtx := Matrix4 2, mFrameSign := 7\<rparr>), (2, Cache)],
               mCacheOwner := None, heapNext := 3\<rparr>"
      and resolved = "exKey\<lparr>mData := [],
               mCaches := [(1, Cache\<lparr>mInnerMtx := Matrix4 2, mFrameSign := 7, mNode := Some 1\<rparr>),
                           (2, Cache\<lparr>mNode := Some 3\<rparr>)],
               mCacheOwner := Some 0, heapNext := 3\<rparr>"]
  from t d resetCaches_example have 1: "oneCachePerNode (mCaches exKey1)" by blast
  have 5: "oneCachePerNode
        [(1, Cache\<lparr>mInnerMtx := Matrix4 2, mFrameSign := 7, mNode := Some 1\<rparr>),
         (2::nat, Cache\<lparr>mNode := Some 3\<rparr>)]"
    using t deserialize_exStream solveIDs_exStream r by simp
  note u = cache_collection_invariant[where key = exKey1 and n = 1]
  from u 1 have 3: "oneCachePerNode (mCaches (snd (popCache exKey1 1)))" by blast
  from 1 3 5 show ?thesis by blast
qed

section \<open>Lemmas on copying the bone forest\<close>

lemma createClone_shape:
  "shape (fst (createClone nxt b)) = shape b"
  "map shape (fst (createClones nxt bs)) = map shape bs"
  by (induction nxt b and nxt bs rule: createClone_createClones.induct)
     (auto split: prod.splits)

lemma createClone_fresh:
  "nxt \<le> snd (createClone nxt b) \<and> set (addrs (fst (createClone nxt b))) \<subseteq> {nxt ..< snd (createClone nxt b)}"
  "nxt \<le> snd (createClones nxt bs) \<and> (\<Union>b' \<in> set (fst (createClones nxt bs)). set (addrs b')) \<subseteq> {nxt ..< snd (createClones nxt bs)}"
  by (induction nxt b and nxt bs rule: createClone_createClones.induct)
     (fastforce split: prod.splits)+

text \<open>
  Assignment from another object: the destination gets a forest of the same structure,
  made of new bone objects only, and the source keeps its own.
\<close>

lemma Data_assign_other:
  assumes "this \<noteq> aRhs"
  shows "map shape (topBonesOf (Data_assign st this aRhs) this) = map shape (topBonesOf st aRhs)"
    and "topBonesOf (Data_assign st this aRhs) aRhs = topBonesOf st aRhs"
    and "\<forall>b \<in> set (topBonesOf (Data_assign st this aRhs) this). \<forall>a \<in> set (addrs b). boneNext st \<le> a"
proof -
  obtain clones nxt where c: "createClones (boneNext st) (topBonesOf st aRhs) = (clones, nxt)"
    by (cases "createClones (boneNext st) (topBonesOf st aRhs)")
  have r: "topBonesOf (Data_assign st this aRhs) this = clones"
    and s: "topBonesOf (Data_assign st this aRhs) aRhs = topBonesOf st aRhs"
    using assms c by (simp_all add: Data_assign_def Data_deleteAll_def pushClones_def)
  from createClone_shape(2)[of "boneNext st" "topBonesOf st aRhs"] c r
  show "map shape (topBonesOf (Data_assign st this aRhs) this) = map shape (topBonesOf st aRhs)"
    by simp
  show "topBonesOf (Data_assign st this aRhs) aRhs = topBonesOf st aRhs" by (rule s)
  from createClone_fresh(2)[of "boneNext st" "topBonesOf st aRhs"] c r
  show "\<forall>b \<in> set (topBonesOf (Data_assign st this aRhs) this). \<forall>a \<in> set (addrs b). boneNext st \<le> a"
    by fastforce
qed

lemma Data_copy_shape:
  "map shape (topBonesOf (Data_copy st this aRhs) this)
     = (if this = aRhs then [] else map shape (topBonesOf st aRhs))"
proof -
  let ?st = "st\<lparr>topBonesOf := (topBonesOf st)(this := [])\<rparr>"
  obtain clones nxt where c: "createClones (boneNext ?st) (topBonesOf ?st aRhs) = (clones, nxt)"
    by (cases "createClones (boneNext ?st) (topBonesOf ?st aRhs)")
  have "topBonesOf (Data_copy st this aRhs) this = clones"
    using c by (simp add: Data_copy_def pushClones_def)
  with createClone_shape(2)[of "boneNext ?st" "topBonesOf ?st aRhs"] c show ?thesis
    by auto
qed

text \<open>
  C8. Copy assignment where destination and source are the same object: \<open>deleteAll()\<close>
  empties the list before the loop reads it, so the object ends with no bone at all,
  whatever forest it held. The claim (the destination holds a forest equal to the
  source's forest before the copy) fails here.
\<close>

theorem Data_assign_self:
  "topBonesOf (Data_assign st d d) d = []"
  by (simp add: Data_assign_def Data_deleteAll_def pushClones_def)

text \<open>Witness for C8: the object at address 0 holds one top bone and assigns to itself.\<close>

theorem Data_assign_self_example:
  "topBonesOf exStore 0 \<noteq> [] \<and> topBonesOf (Data_assign exStore 0 0) 0 = []"
  by (simp add: Data_assign_self) (simp add: exStore_def)

end
